theory Spec2Isabelle
  imports Main "HOL-Library.Word"
begin

unbundle bit_operations_syntax

section \<open>Machine types and memory layout\<close>

type_synonym u8 = "8 word"
type_synonym u32 = "32 word"
type_synonym u64 = "64 word"

text \<open>
  The context of \<^verbatim>\<open>sha256.c\<close>: \<^verbatim>\<open>struct sha256_ctx\<close>. The field \<^verbatim>\<open>length\<close> is
  called \<open>length_ctx\<close> here, since \<open>length\<close> is the length of a list in HOL. The arrays
  \<^verbatim>\<open>message[16]\<close> and \<^verbatim>\<open>hash[8]\<close> are lists; a well-formed context has 16 and 8 entries
  (\<open>wf_ctx\<close> below). The program has one global context \<^verbatim>\<open>sctx\<close>; every operation of
  the model takes the context and returns the updated one.
\<close>

record sha256_ctx =
  message :: "u32 list"
  length_ctx :: u64
  hash :: "u32 list"
  digest_length :: u32

definition wf_ctx :: "sha256_ctx \<Rightarrow> bool" where
  "wf_ctx c = (length (message c) = 16 \<and> length (hash c) = 8)"

text \<open>
  The code reads and writes \<^verbatim>\<open>message\<close> and \<^verbatim>\<open>hash\<close> both as 32-bit words and, through
  \<^verbatim>\<open>uint8_t *\<close> casts, as bytes. The target is WebAssembly, which is little-endian: byte
  \<open>k\<close> of a word in memory is bits \<open>8k .. 8k+7\<close> of its value.
\<close>

definition le_bytes32 :: "u32 \<Rightarrow> u8 list" where
  "le_bytes32 w = [ucast w, ucast (drop_bit 8 w), ucast (drop_bit 16 w), ucast (drop_bit 24 w)]"

definition le_word32 :: "u8 \<Rightarrow> u8 \<Rightarrow> u8 \<Rightarrow> u8 \<Rightarrow> u32" where
  "le_word32 b0 b1 b2 b3 =
     ucast b0 OR push_bit 8 (ucast b1) OR push_bit 16 (ucast b2) OR push_bit 24 (ucast b3)"

text \<open>The bytes of a word array in memory order, and the words of a byte array.\<close>

definition le_bytes :: "u32 list \<Rightarrow> u8 list" where
  "le_bytes ws = concat (map le_bytes32 ws)"

fun le_words :: "u8 list \<Rightarrow> u32 list" where
  "le_words (b0 # b1 # b2 # b3 # bs) = le_word32 b0 b1 b2 b3 # le_words bs"
| "le_words _ = []"

text \<open>A byte store \<^verbatim>\<open>*((uint8_t *)ws + p) = b\<close> into a word array.\<close>

definition store8 :: "u32 list \<Rightarrow> nat \<Rightarrow> u8 \<Rightarrow> u32 list" where
  "store8 ws p b =
     (let bs = (le_bytes32 (ws ! (p div 4)))[p mod 4 := b]
      in ws[p div 4 := le_word32 (bs ! 0) (bs ! 1) (bs ! 2) (bs ! 3)])"

text \<open>\<^verbatim>\<open>__builtin_bswap32\<close>: the word with its four bytes in reverse order.\<close>

definition bswap_32 :: "u32 \<Rightarrow> u32" where
  "bswap_32 x =
     le_word32 (ucast (drop_bit 24 x)) (ucast (drop_bit 16 x)) (ucast (drop_bit 8 x)) (ucast x)"

section \<open>The macros of the compression function\<close>

text \<open>
  The six functions \<^verbatim>\<open>zkwasm_sha256_ch\<close>, \<^verbatim>\<open>_maj\<close>, \<^verbatim>\<open>_lsigma0\<close>, \<^verbatim>\<open>_lsigma1\<close>,
  \<^verbatim>\<open>_ssigma0\<close> and \<^verbatim>\<open>_ssigma1\<close> are macros in the source. Under \<^verbatim>\<open>__wasm__\<close> the source
  only declares them, as functions of the host; the definitions here are those of the
  macros. \<^verbatim>\<open>ROTR32(dword, n)\<close> is \<^verbatim>\<open>(dword >> n) ^ (dword << (32 - n))\<close> on 32 bits,
  used with \<open>0 < n < 32\<close>.
\<close>

definition ROTR32 :: "u32 \<Rightarrow> nat \<Rightarrow> u32" where
  "ROTR32 dword n = drop_bit n dword XOR push_bit (32 - n) dword"

definition zkwasm_sha256_ch :: "u32 \<Rightarrow> u32 \<Rightarrow> u32 \<Rightarrow> u32" where
  "zkwasm_sha256_ch x y z = z XOR (x AND (y XOR z))"

definition zkwasm_sha256_maj :: "u32 \<Rightarrow> u32 \<Rightarrow> u32 \<Rightarrow> u32" where
  "zkwasm_sha256_maj x y z = (x AND y) XOR (z AND (x XOR y))"

definition zkwasm_sha256_lsigma0 :: "u32 \<Rightarrow> u32" where
  "zkwasm_sha256_lsigma0 x = ROTR32 x 2 XOR ROTR32 x 13 XOR ROTR32 x 22"

definition zkwasm_sha256_lsigma1 :: "u32 \<Rightarrow> u32" where
  "zkwasm_sha256_lsigma1 x = ROTR32 x 6 XOR ROTR32 x 11 XOR ROTR32 x 25"

definition zkwasm_sha256_ssigma0 :: "u32 \<Rightarrow> u32" where
  "zkwasm_sha256_ssigma0 x = ROTR32 x 7 XOR ROTR32 x 18 XOR drop_bit 3 x"

definition zkwasm_sha256_ssigma1 :: "u32 \<Rightarrow> u32" where
  "zkwasm_sha256_ssigma1 x = ROTR32 x 17 XOR ROTR32 x 19 XOR drop_bit 10 x"

definition rhash_k256 :: "u32 list" where
  "rhash_k256 = [
    0x428A2F98, 0x71374491, 0xB5C0FBCF, 0xE9B5DBA5, 0x3956C25B, 0x59F111F1,
    0x923F82A4, 0xAB1C5ED5, 0xD807AA98, 0x12835B01, 0x243185BE, 0x550C7DC3,
    0x72BE5D74, 0x80DEB1FE, 0x9BDC06A7, 0xC19BF174, 0xE49B69C1, 0xEFBE4786,
    0x0FC19DC6, 0x240CA1CC, 0x2DE92C6F, 0x4A7484AA, 0x5CB0A9DC, 0x76F988DA,
    0x983E5152, 0xA831C66D, 0xB00327C8, 0xBF597FC7, 0xC6E00BF3, 0xD5A79147,
    0x06CA6351, 0x14292967, 0x27B70A85, 0x2E1B2138, 0x4D2C6DFC, 0x53380D13,
    0x650A7354, 0x766A0ABB, 0x81C2C92E, 0x92722C85, 0xA2BFE8A1, 0xA81A664B,
    0xC24B8B70, 0xC76C51A3, 0xD192E819, 0xD6990624, 0xF40E3585, 0x106AA070,
    0x19A4C116, 0x1E376C08, 0x2748774C, 0x34B0BCB5, 0x391C0CB3, 0x4ED8AA4A,
    0x5B9CCA4F, 0x682E6FF3, 0x748F82EE, 0x78A5636F, 0x84C87814, 0x8CC70208,
    0x90BEFFFA, 0xA4506CEB, 0xBEF9A3F7, 0xC67178F2]"

text \<open>
  \<^verbatim>\<open>RECALCULATE_W(W, n)\<close>: \<^verbatim>\<open>W[n] += ssigma1(W[(n - 2) & 15]) + W[(n - 7) & 15] +
  ssigma0(W[(n - 15) & 15])\<close>. The index \<open>n\<close> is an \<^verbatim>\<open>int\<close> literal, so \<open>n - 2\<close> may be
  negative and \<open>& 15\<close> is taken on the two's complement integer.
\<close>

definition RECALCULATE_W :: "u32 list \<Rightarrow> nat \<Rightarrow> u32 list" where
  "RECALCULATE_W W n =
     W[n := W ! n +
        (zkwasm_sha256_ssigma1 (W ! nat ((int n - 2) AND 15)) + W ! nat ((int n - 7) AND 15) +
         zkwasm_sha256_ssigma0 (W ! nat ((int n - 15) AND 15)))]"

text \<open>
  The working variables \<^verbatim>\<open>A .. H\<close> of \<^verbatim>\<open>sha256_process_block\<close>. The macro \<^verbatim>\<open>ROUND\<close> takes
  eight of them by name, in an order that the call sites rotate, and assigns to its
  arguments \<open>d\<close> and \<open>h\<close>.
\<close>

datatype wvar = A | B | C | D | E | F | G | H

type_synonym wvars = "wvar \<Rightarrow> u32"

definition ROUND ::
  "wvar \<Rightarrow> wvar \<Rightarrow> wvar \<Rightarrow> wvar \<Rightarrow> wvar \<Rightarrow> wvar \<Rightarrow> wvar \<Rightarrow> wvar \<Rightarrow> u32 \<Rightarrow> u32 \<Rightarrow> wvars \<Rightarrow> wvars" where
  "ROUND a b c d e f g h k data v =
     (let T1 = v h + zkwasm_sha256_lsigma1 (v e) + zkwasm_sha256_ch (v e) (v f) (v g) + k + data;
          v = v(d := v d + T1);
          v = v(h := T1 + zkwasm_sha256_lsigma0 (v a) + zkwasm_sha256_maj (v a) (v b) (v c))
      in v)"

text \<open>
  A statement of the unrolled code acts on the working variables and the 16-entry buffer
  \<^verbatim>\<open>W\<close>. \<^verbatim>\<open>ROUND_1_16\<close> stores \<^verbatim>\<open>W[n] = bswap_32(block[n])\<close> and passes that value as
  \<open>data\<close>; \<^verbatim>\<open>ROUND_17_64\<close> passes the value of \<^verbatim>\<open>RECALCULATE_W(W, n)\<close>, the new \<^verbatim>\<open>W[n]\<close>,
  with the constant \<^verbatim>\<open>k[n]\<close>, where the pointer \<open>k\<close> is an offset into \<^verbatim>\<open>rhash_k256\<close>.
\<close>

type_synonym wstate = "wvars \<times> u32 list"

definition ROUND_1_16 ::
  "wvar \<Rightarrow> wvar \<Rightarrow> wvar \<Rightarrow> wvar \<Rightarrow> wvar \<Rightarrow> wvar \<Rightarrow> wvar \<Rightarrow> wvar \<Rightarrow> nat \<Rightarrow> u32 list \<Rightarrow> wstate \<Rightarrow> wstate" where
  "ROUND_1_16 a b c d e f g h n block s =
     (case s of (v, W) \<Rightarrow>
        (ROUND a b c d e f g h (rhash_k256 ! n) (bswap_32 (block ! n)) v,
         W[n := bswap_32 (block ! n)]))"

definition ROUND_17_64 ::
  "wvar \<Rightarrow> wvar \<Rightarrow> wvar \<Rightarrow> wvar \<Rightarrow> wvar \<Rightarrow> wvar \<Rightarrow> wvar \<Rightarrow> wvar \<Rightarrow> nat \<Rightarrow> nat \<Rightarrow> wstate \<Rightarrow> wstate" where
  "ROUND_17_64 a b c d e f g h n k s =
     (case s of (v, W) \<Rightarrow>
        (ROUND a b c d e f g h (rhash_k256 ! (k + n)) (RECALCULATE_W W n ! n) v,
         RECALCULATE_W W n))"

text \<open>A sequence of statements, run in order.\<close>

definition run :: "('s \<Rightarrow> 's) list \<Rightarrow> 's \<Rightarrow> 's" where
  "run stmts s = fold (\<lambda>stmt. stmt) stmts s"

definition rounds_1_16 :: "u32 list \<Rightarrow> (wstate \<Rightarrow> wstate) list" where
  "rounds_1_16 block = [
     ROUND_1_16 A B C D E F G H 0 block,
     ROUND_1_16 H A B C D E F G 1 block,
     ROUND_1_16 G H A B C D E F 2 block,
     ROUND_1_16 F G H A B C D E 3 block,
     ROUND_1_16 E F G H A B C D 4 block,
     ROUND_1_16 D E F G H A B C 5 block,
     ROUND_1_16 C D E F G H A B 6 block,
     ROUND_1_16 B C D E F G H A 7 block,
     ROUND_1_16 A B C D E F G H 8 block,
     ROUND_1_16 H A B C D E F G 9 block,
     ROUND_1_16 G H A B C D E F 10 block,
     ROUND_1_16 F G H A B C D E 11 block,
     ROUND_1_16 E F G H A B C D 12 block,
     ROUND_1_16 D E F G H A B C 13 block,
     ROUND_1_16 C D E F G H A B 14 block,
     ROUND_1_16 B C D E F G H A 15 block]"

definition rounds_17_64 :: "nat \<Rightarrow> (wstate \<Rightarrow> wstate) list" where
  "rounds_17_64 k = [
     ROUND_17_64 A B C D E F G H 0 k,
     ROUND_17_64 H A B C D E F G 1 k,
     ROUND_17_64 G H A B C D E F 2 k,
     ROUND_17_64 F G H A B C D E 3 k,
     ROUND_17_64 E F G H A B C D 4 k,
     ROUND_17_64 D E F G H A B C 5 k,
     ROUND_17_64 C D E F G H A B 6 k,
     ROUND_17_64 B C D E F G H A 7 k,
     ROUND_17_64 A B C D E F G H 8 k,
     ROUND_17_64 H A B C D E F G 9 k,
     ROUND_17_64 G H A B C D E F 10 k,
     ROUND_17_64 F G H A B C D E 11 k,
     ROUND_17_64 E F G H A B C D 12 k,
     ROUND_17_64 D E F G H A B C 13 k,
     ROUND_17_64 C D E F G H A B 14 k,
     ROUND_17_64 B C D E F G H A 15 k]"

text \<open>
  The loop \<^verbatim>\<open>for (i = 16, k = &rhash_k256[16]; i < 64; i += 16, k += 16)\<close> around the
  sixteen \<^verbatim>\<open>ROUND_17_64\<close> statements.
\<close>

function rounds_loop :: "nat \<Rightarrow> nat \<Rightarrow> wstate \<Rightarrow> wstate" where
  "rounds_loop i k s = (if i < 64 then rounds_loop (i + 16) (k + 16) (run (rounds_17_64 k) s) else s)"
  by pat_completeness auto
termination
  by (relation "measure (\<lambda>(i, k, s). 64 - i)") auto

text \<open>
  \<^verbatim>\<open>sha256_process_block(hash, block)\<close>. The local array \<^verbatim>\<open>W\<close> is uninitialised in C;
  each entry is assigned in rounds 1 to 16 before it is read, and the model starts it
  with zeros.
\<close>

definition init_vars :: "u32 list \<Rightarrow> wvars" where
  "init_vars hs = (\<lambda>x. case x of A \<Rightarrow> hs ! 0 | B \<Rightarrow> hs ! 1 | C \<Rightarrow> hs ! 2 | D \<Rightarrow> hs ! 3
                            | E \<Rightarrow> hs ! 4 | F \<Rightarrow> hs ! 5 | G \<Rightarrow> hs ! 6 | H \<Rightarrow> hs ! 7)"

definition sha256_process_block :: "u32 list \<Rightarrow> u32 list \<Rightarrow> u32 list" where
  "sha256_process_block hs block =
     (case rounds_loop 16 16 (run (rounds_1_16 block) (init_vars hs, replicate 16 0)) of
        (v, W) \<Rightarrow>
          hs[0 := hs ! 0 + v A, 1 := hs ! 1 + v B, 2 := hs ! 2 + v C, 3 := hs ! 3 + v D,
             4 := hs ! 4 + v E, 5 := hs ! 5 + v F, 6 := hs ! 6 + v G, 7 := hs ! 7 + v H])"

text \<open>
  The loop carries \<^verbatim>\<open>#pragma clang loop unroll(full)\<close>: the 64 statements in the order in
  which they run, and the buffer \<^verbatim>\<open>W\<close> right after statement \<open>t\<close> (rounds count from 0),
  whose entry \<open>t mod 16\<close> is the \<open>data\<close> argument of that round.
\<close>

definition unrolled_rounds :: "u32 list \<Rightarrow> (wstate \<Rightarrow> wstate) list" where
  "unrolled_rounds block = rounds_1_16 block @ rounds_17_64 16 @ rounds_17_64 32 @ rounds_17_64 48"

definition circular_W :: "u32 list \<Rightarrow> nat \<Rightarrow> wstate \<Rightarrow> u32 list" where
  "circular_W block t s = snd (run (take (Suc t) (unrolled_rounds block)) s)"

section \<open>Initialisation\<close>

definition SHA256_H0 :: "u32 list" where
  "SHA256_H0 = [0x6a09e667, 0xbb67ae85, 0x3c6ef372, 0xa54ff53a,
                0x510e527f, 0x9b05688c, 0x1f83d9ab, 0x5be0cd19]"

definition sha256_hash_size :: u32 where
  "sha256_hash_size = 32"

text \<open>
  \<^verbatim>\<open>sha256_init\<close>: the loop \<^verbatim>\<open>for (i = 0; i < 8; i += 2)\<close> copies the words \<open>i\<close> and
  \<open>i + 1\<close> of \<^verbatim>\<open>SHA256_H0\<close> in one 64-bit store.
\<close>

definition copy_h0_pair :: "nat \<Rightarrow> u32 list \<Rightarrow> u32 list" where
  "copy_h0_pair i hs = hs[i := SHA256_H0 ! i, i + 1 := SHA256_H0 ! (i + 1)]"

definition sha256_init :: "sha256_ctx \<Rightarrow> sha256_ctx" where
  "sha256_init c =
     (let c = c\<lparr>length_ctx := 0\<rparr>;
          c = c\<lparr>digest_length := sha256_hash_size\<rparr>
      in c\<lparr>hash := fold copy_h0_pair [0, 2, 4, 6] (hash c)\<rparr>)"

definition Hash_Init :: "u32 \<Rightarrow> sha256_ctx \<Rightarrow> sha256_ctx" where
  "Hash_Init bits c = sha256_init c"


text \<open>The global \<^verbatim>\<open>struct sha256_ctx sctx\<close> has static storage: it starts with all bytes zero.\<close>

definition sctx :: sha256_ctx where
  "sctx = \<lparr>message = replicate 16 0, length_ctx = 0, hash = replicate 8 0, digest_length = 0\<rparr>"

section \<open>Feeding data\<close>

text \<open>
  The byte-copy loops \<^verbatim>\<open>for (uint8_t i = 0; i < end; i++) *(message8 + off + i) = msg[i]\<close>.
  The bound is at most 64 at both call sites (\<open>end \<le> left \<le> 63\<close>, and \<open>size < 64\<close> after
  the block loop), so the 8-bit counter never wraps and is a \<open>nat\<close> here.
\<close>

function copy_loop :: "nat \<Rightarrow> nat \<Rightarrow> nat \<Rightarrow> u8 list \<Rightarrow> u32 list \<Rightarrow> u32 list" where
  "copy_loop i end off msg m =
     (if i < end then copy_loop (i + 1) end off msg (store8 m (off + i) (msg ! i)) else m)"
  by pat_completeness auto
termination
  by (relation "measure (\<lambda>(i, end, off, msg, m). end - i)") auto

text \<open>
  \<^verbatim>\<open>while (size >= sha256_block_size)\<close>: each full block is read through the cast
  \<^verbatim>\<open>(uint32_t *)msg\<close>. The pointer \<open>msg\<close> is the list of the bytes from it on. The loop
  returns the remaining size, the advanced pointer and the hash state.
\<close>

function block_loop :: "u32 \<Rightarrow> u8 list \<Rightarrow> u32 list \<Rightarrow> u32 \<times> u8 list \<times> u32 list" where
  "block_loop sz msg hs =
     (if 64 \<le> sz
      then block_loop (sz - 64) (drop 64 msg) (sha256_process_block hs (le_words (take 64 msg)))
      else (sz, msg, hs))"
  by pat_completeness auto
termination
  by (relation "measure (\<lambda>(sz, msg, hs). unat sz)") (auto simp: unat_sub word_le_nat_alt)

text \<open>The part of \<^verbatim>\<open>Hash_Update\<close> after the partial block: the block loop and the leftovers.\<close>

definition update_rest :: "u32 \<Rightarrow> u8 list \<Rightarrow> sha256_ctx \<Rightarrow> sha256_ctx" where
  "update_rest sz msg c =
     (case block_loop sz msg (hash c) of
        (sz, msg, hs) \<Rightarrow>
          (let c = c\<lparr>hash := hs\<rparr>
           in if sz \<noteq> 0 then c\<lparr>message := copy_loop 0 (unat sz) 0 msg (message c)\<rparr> else c))"

text \<open>
  \<^verbatim>\<open>Hash_Update(size, data)\<close>; the parameter \<^verbatim>\<open>size\<close> is \<open>sz\<close> here (\<open>size\<close> is a constant of
  HOL). The caller passes \<open>sz\<close> bytes at \<open>data\<close>; the theorems
  below assume \<open>unat sz = length data\<close>.
\<close>

definition Hash_Update :: "u32 \<Rightarrow> u8 list \<Rightarrow> sha256_ctx \<Rightarrow> sha256_ctx" where
  "Hash_Update sz data c =
     (let msg = data;
          index = (ucast (length_ctx c) :: u32) AND 63;
          c = c\<lparr>length_ctx := length_ctx c + ucast sz\<rparr>
      in if index \<noteq> 0
         then (let left = 64 - index;
                   end = (if sz < left then sz else left);
                   c = c\<lparr>message := copy_loop 0 (unat end) (unat index) msg (message c)\<rparr>
               in if sz < left then c
                  else (let c = c\<lparr>hash := sha256_process_block (hash c) (message c)\<rparr>
                        in update_rest (sz - left) (drop (unat left) msg) c))
         else update_rest sz msg c)"

section \<open>Finalisation\<close>

text \<open>\<^verbatim>\<open>while (index < bound) ctx->message[index++] = 0\<close>, returning the index too.\<close>

function zero_fill :: "u32 \<Rightarrow> u32 \<Rightarrow> u32 list \<Rightarrow> u32 \<times> u32 list" where
  "zero_fill index bound m =
     (if index < bound then zero_fill (index + 1) bound (m[unat index := 0]) else (index, m))"
  by pat_completeness auto
termination
proof (relation "measure (\<lambda>(index, bound, m). unat bound - unat index)")
  fix index bound :: u32 and m :: "u32 list"
  assume "index < bound"
  then have "unat index < unat bound" by (simp add: word_less_nat_alt)
  moreover from this have "unat (index + 1) = unat index + 1"
    using unsigned_less[of bound, where 'a = nat] by (simp add: unat_word_ariths)
  ultimately show "((index + 1, bound, m[unat index := 0]), (index, bound, m))
      \<in> measure (\<lambda>(index, bound, m). unat bound - unat index)"
    by simp
qed simp

text \<open>
  The padding of \<^verbatim>\<open>Hash_Final\<close>, up to the optional extra block: the context and the
  index after \<^verbatim>\<open>if (index > 14) { ... }\<close>.
\<close>

definition final_pad :: "sha256_ctx \<Rightarrow> u32 \<times> sha256_ctx" where
  "final_pad c =
     (let index = drop_bit 2 ((ucast (length_ctx c) :: u32) AND 63);
          shift = ((ucast (length_ctx c) :: u32) AND 3) * 8;
          c = c\<lparr>message := (message c)[unat index :=
                message c ! unat index AND NOT (push_bit (unat shift) 0xFFFFFFFF)]\<rparr>;
          c = c\<lparr>message := (message c)[unat index :=
                message c ! unat index XOR push_bit (unat shift) 0x80]\<rparr>;
          index = index + 1
      in if 14 < index
         then (case zero_fill index 16 (message c) of
                 (index, m) \<Rightarrow>
                   (let c = c\<lparr>message := m\<rparr>;
                        c = c\<lparr>hash := sha256_process_block (hash c) (message c)\<rparr>
                    in (0, c)))
         else (index, c))"

text \<open>The last block: zero fill up to word 14 and the length in bits in words 14 and 15.\<close>

definition final_length_block :: "u32 \<Rightarrow> sha256_ctx \<Rightarrow> sha256_ctx" where
  "final_length_block index c =
     (case zero_fill index 14 (message c) of
        (index, m) \<Rightarrow>
          (let c = c\<lparr>message := m\<rparr>;
               c = c\<lparr>message := (message c)[14 := bswap_32 (ucast (drop_bit 29 (length_ctx c)))]\<rparr>;
               c = c\<lparr>message := (message c)[15 := bswap_32 (ucast (push_bit 3 (length_ctx c)))]\<rparr>
           in c))"

text \<open>
  \<^verbatim>\<open>Hash_Final(output)\<close> returns the context and the bytes written to \<open>output\<close>: byte \<open>i\<close>
  of the byte-swapped \<open>hash\<close> array in memory order, for \<open>i < digest_length\<close>.
  \<^verbatim>\<open>Hash_Init\<close> sets \<open>digest_length\<close> to 32, the size of \<open>hash\<close> in bytes, and nothing
  else writes it; with a larger value the C loop would read past the array (and its
  8-bit counter would wrap at 256), so the theorems about the output are about contexts
  with \<open>digest_length = 32\<close>.
\<close>

definition Hash_Final :: "sha256_ctx \<Rightarrow> sha256_ctx \<times> u8 list" where
  "Hash_Final c =
     (case final_pad c of
        (index, c) \<Rightarrow>
          (let c = final_length_block index c;
               c = c\<lparr>hash := sha256_process_block (hash c) (message c)\<rparr>;
               c = c\<lparr>hash := fold (\<lambda>i hs. hs[i := bswap_32 (hs ! i)]) [7, 6, 5, 4, 3, 2, 1, 0] (hash c)\<rparr>
           in (c, map (\<lambda>i. le_bytes (hash c) ! i) [0..<unat (digest_length c)])))"

text \<open>The blocks that \<^verbatim>\<open>Hash_Final\<close> passes to \<^verbatim>\<open>sha256_process_block\<close>, in order.\<close>

definition final_blocks :: "sha256_ctx \<Rightarrow> u32 list list" where
  "final_blocks c =
     (let index = drop_bit 2 ((ucast (length_ctx c) :: u32) AND 63);
          shift = ((ucast (length_ctx c) :: u32) AND 3) * 8;
          m = (message c)[unat index :=
                message c ! unat index AND NOT (push_bit (unat shift) 0xFFFFFFFF)];
          m = m[unat index := m ! unat index XOR push_bit (unat shift) 0x80];
          index = index + 1
      in if 14 < index
         then [snd (zero_fill index 16 m),
               message (final_length_block 0 (c\<lparr>message := snd (zero_fill index 16 m)\<rparr>))]
         else [message (final_length_block index (c\<lparr>message := m\<rparr>))])"

definition SHA256_Digest :: "u32 \<Rightarrow> u8 list \<Rightarrow> sha256_ctx \<Rightarrow> sha256_ctx \<times> u8 list" where
  "SHA256_Digest sz msg c = Hash_Final (Hash_Update sz msg (Hash_Init 256 c))"


declare copy_loop.simps [simp del]
declare block_loop.simps [simp del]
declare zero_fill.simps [simp del]

section \<open>The reference: the SHA-256 compression function of FIPS 180-4\<close>

text \<open>
  These definitions follow the words of the specification, not the code: the functions
  \<open>Ch\<close>, \<open>Maj\<close>, \<open>\<Sigma>0\<close>, \<open>\<Sigma>1\<close>, \<open>\<sigma>0\<close>, \<open>\<sigma>1\<close> with true rotations, the 64-entry message
  schedule, the round on the 8-tuple of working variables, and the compression of one
  block of sixteen big-endian words. The round constants are the table of the code.
\<close>

type_synonym w8 = "u32 \<times> u32 \<times> u32 \<times> u32 \<times> u32 \<times> u32 \<times> u32 \<times> u32"

definition Ch :: "u32 \<Rightarrow> u32 \<Rightarrow> u32 \<Rightarrow> u32" where
  "Ch x y z = (x AND y) XOR (NOT x AND z)"
definition Maj :: "u32 \<Rightarrow> u32 \<Rightarrow> u32 \<Rightarrow> u32" where
  "Maj x y z = (x AND y) XOR (x AND z) XOR (y AND z)"
definition Sigma0 :: "u32 \<Rightarrow> u32" where
  "Sigma0 x = word_rotr 2 x XOR word_rotr 13 x XOR word_rotr 22 x"
definition Sigma1 :: "u32 \<Rightarrow> u32" where
  "Sigma1 x = word_rotr 6 x XOR word_rotr 11 x XOR word_rotr 25 x"
definition sigma0 :: "u32 \<Rightarrow> u32" where
  "sigma0 x = word_rotr 7 x XOR word_rotr 18 x XOR drop_bit 3 x"
definition sigma1 :: "u32 \<Rightarrow> u32" where
  "sigma1 x = word_rotr 17 x XOR word_rotr 19 x XOR drop_bit 10 x"

function fips_W :: "u32 list \<Rightarrow> nat \<Rightarrow> u32" where
  "fips_W ws t = (if t < 16 then ws ! t
     else sigma1 (fips_W ws (t - 2)) + fips_W ws (t - 7) + sigma0 (fips_W ws (t - 15)) + fips_W ws (t - 16))"
  by pat_completeness auto
termination
  by (relation "measure (\<lambda>(ws, t). t)") auto

declare fips_W.simps [simp del]

definition fips_round :: "u32 \<Rightarrow> u32 \<Rightarrow> w8 \<Rightarrow> w8" where
  "fips_round k w s = (case s of (a, b, c, d, e, f, g, h) \<Rightarrow>
     (let T1 = h + Sigma1 e + Ch e f g + k + w;
          T2 = Sigma0 a + Maj a b c
      in (T1 + T2, a, b, c, d + T1, e, f, g)))"

definition fips_compress :: "u32 list \<Rightarrow> u32 list \<Rightarrow> u32 list" where
  "fips_compress hs ws =
     (case fold (\<lambda>t. fips_round (rhash_k256 ! t) (fips_W ws t)) [0..<64]
              (hs ! 0, hs ! 1, hs ! 2, hs ! 3, hs ! 4, hs ! 5, hs ! 6, hs ! 7) of
        (a, b, c, d, e, f, g, h) \<Rightarrow>
          [hs ! 0 + a, hs ! 1 + b, hs ! 2 + c, hs ! 3 + d, hs ! 4 + e, hs ! 5 + f, hs ! 6 + g, hs ! 7 + h])"


definition be_word32 :: "u8 \<Rightarrow> u8 \<Rightarrow> u8 \<Rightarrow> u8 \<Rightarrow> u32" where
  "be_word32 b0 b1 b2 b3 =
     push_bit 24 (ucast b0) OR push_bit 16 (ucast b1) OR push_bit 8 (ucast b2) OR ucast b3"

fun be_words :: "u8 list \<Rightarrow> u32 list" where
  "be_words (b0 # b1 # b2 # b3 # bs) = be_word32 b0 b1 b2 b3 # be_words bs"
| "be_words _ = []"

section \<open>The unrolled rounds as one sequence\<close>

text \<open>
  Round \<open>t\<close> of the code passes the working variables to \<^verbatim>\<open>ROUND\<close> rotated right by
  \<open>t mod 8\<close> places: \<open>role t i\<close> is the variable in argument position \<open>i\<close>. \<open>statement\<close> is
  the \<open>t\<close>-th statement of the unrolled code, \<open>vars_at\<close> reads the working variables in
  the order of round \<open>t\<close>, and \<open>code_round\<close> is the effect of \<^verbatim>\<open>ROUND\<close> in that order.
\<close>

definition code_round :: "u32 \<Rightarrow> u32 \<Rightarrow> w8 \<Rightarrow> w8" where
  "code_round k w s = (case s of (a, b, c, d, e, f, g, h) \<Rightarrow>
     (let T1 = h + zkwasm_sha256_lsigma1 e + zkwasm_sha256_ch e f g + k + w
      in (T1 + zkwasm_sha256_lsigma0 a + zkwasm_sha256_maj a b c, a, b, c, d + T1, e, f, g)))"

definition role :: "nat \<Rightarrow> nat \<Rightarrow> wvar" where
  "role t i = [A, B, C, D, E, F, G, H] ! ((i + 8 - t mod 8) mod 8)"

definition vars_at :: "nat \<Rightarrow> wvars \<Rightarrow> w8" where
  "vars_at t v = (v (role t 0), v (role t 1), v (role t 2), v (role t 3),
                  v (role t 4), v (role t 5), v (role t 6), v (role t 7))"

definition statement :: "u32 list \<Rightarrow> nat \<Rightarrow> wstate \<Rightarrow> wstate" where
  "statement block t =
     (if t < 16
      then ROUND_1_16 (role t 0) (role t 1) (role t 2) (role t 3) (role t 4) (role t 5) (role t 6) (role t 7) t block
      else ROUND_17_64 (role t 0) (role t 1) (role t 2) (role t 3) (role t 4) (role t 5) (role t 6) (role t 7)
             (t mod 16) (t - t mod 16))"

definition state_after :: "u32 list \<Rightarrow> nat \<Rightarrow> wstate \<Rightarrow> wstate" where
  "state_after block t s = run (map (statement block) [0..<t]) s"


text \<open>
  The circular buffer before round \<open>t\<close> holds the last sixteen entries of the full
  schedule, entry \<open>j\<close> at index \<open>j mod 16\<close>.
\<close>

definition W_inv :: "u32 list \<Rightarrow> nat \<Rightarrow> u32 list \<Rightarrow> bool" where
  "W_inv ws t W = (length W = 16 \<and> (\<forall>j. j < t \<and> t \<le> j + 16 \<longrightarrow> W ! (j mod 16) = fips_W ws j))"


section \<open>The state of the context between the calls\<close>

text \<open>
  \<open>chain hs M\<close> is the chaining value after the complete 64-byte blocks of \<open>M\<close>, each
  read as the little-endian target reads it, starting from \<open>hs\<close>; the incomplete tail of
  \<open>M\<close> is not compressed.
\<close>

function chain :: "u32 list \<Rightarrow> u8 list \<Rightarrow> u32 list" where
  "chain hs M = (if length M < 64 then hs
                 else chain (sha256_process_block hs (le_words (take 64 M))) (drop 64 M))"
  by pat_completeness auto
termination
  by (relation "measure (\<lambda>(hs, M). length M)") auto

declare chain.simps [simp del]

text \<open>
  \<open>ctx_of M c\<close>: the context \<open>c\<close> has consumed the bytes \<open>M\<close>. Its arrays have their
  sizes, the digest length is 32, \<open>length\<close> counts the bytes of \<open>M\<close> (modulo \<open>2^64\<close>),
  \<open>hash\<close> is the chaining value of the complete blocks of \<open>M\<close>, and the first
  \<open>length M mod 64\<close> bytes of the buffer are the tail of \<open>M\<close> after its last complete
  block. Nothing is said of the other bytes of the buffer.
\<close>

definition ctx_of :: "u8 list \<Rightarrow> sha256_ctx \<Rightarrow> bool" where
  "ctx_of M c =
     (wf_ctx c \<and> digest_length c = 32 \<and> length_ctx c = of_nat (length M) \<and>
      hash c = chain SHA256_H0 M \<and>
      take (length M mod 64) (le_bytes (message c)) = drop (length M - length M mod 64) M)"

text \<open>A sequence of \<^verbatim>\<open>Hash_Update\<close> calls, one for each chunk, with the chunk's length.\<close>

definition feed :: "u8 list list \<Rightarrow> sha256_ctx \<Rightarrow> sha256_ctx" where
  "feed chunks c = fold (\<lambda>chunk. Hash_Update (of_nat (length chunk)) chunk) chunks c"

text \<open>
  What \<^verbatim>\<open>Hash_Final\<close> builds: the padded word at the end of the data, the data of the
  buffer followed by the byte \<open>0x80\<close> and zeros up to \<open>n\<close> bytes, the two words of the
  length, and the hash it stores (the blocks of \<open>final_blocks\<close> compressed in order, then
  each word byte-swapped). \<open>be_bytes64\<close> is the big-endian encoding of a 64-bit integer.
\<close>

definition pad_word32 :: "u32 list \<Rightarrow> nat \<Rightarrow> u32" where
  "pad_word32 m r = (m ! (r div 4) AND NOT (push_bit (8 * (r mod 4)) 0xFFFFFFFF)) XOR push_bit (8 * (r mod 4)) 0x80"

definition pad_bytes :: "sha256_ctx \<Rightarrow> nat \<Rightarrow> u8 list" where
  "pad_bytes c n = take (unat (length_ctx c) mod 64) (le_bytes (message c))
                   @ 0x80 # replicate (n - unat (length_ctx c) mod 64 - 1) 0"

definition len_words :: "sha256_ctx \<Rightarrow> u32 list" where
  "len_words c = [bswap_32 (ucast (drop_bit 29 (length_ctx c))), bswap_32 (ucast (push_bit 3 (length_ctx c)))]"

definition final_hash :: "sha256_ctx \<Rightarrow> u32 list" where
  "final_hash c = fold (\<lambda>i hs. hs[i := bswap_32 (hs ! i)]) [7, 6, 5, 4, 3, 2, 1, 0]
                    (fold (\<lambda>blk hs. sha256_process_block hs blk) (final_blocks c) (hash c))"

definition be_bytes64 :: "u64 \<Rightarrow> u8 list" where
  "be_bytes64 w = [ucast (drop_bit 56 w), ucast (drop_bit 48 w), ucast (drop_bit 40 w), ucast (drop_bit 32 w),
                   ucast (drop_bit 24 w), ucast (drop_bit 16 w), ucast (drop_bit 8 w), ucast w]"

text \<open>
  The schedule as a list that grows by one entry at a time, for evaluation: \<open>sched_ext 48\<close>
  extends the sixteen words of a block to the 64 entries.
\<close>

fun sched_ext :: "nat \<Rightarrow> u32 list \<Rightarrow> u32 list" where
  "sched_ext 0 W = W"
| "sched_ext (Suc n) W = sched_ext n (W @ [zkwasm_sha256_ssigma1 (W ! (length W - 2)) + W ! (length W - 7)
      + zkwasm_sha256_ssigma0 (W ! (length W - 15)) + W ! (length W - 16)])"

text \<open>The bytes of a digest in lower-case hexadecimal, two digits for each byte.\<close>

definition hex_digit :: "nat \<Rightarrow> char" where
  "hex_digit n = ''0123456789abcdef'' ! n"

definition hex :: "u8 list \<Rightarrow> string" where
  "hex bs = concat (map (\<lambda>b. [hex_digit (unat b div 16), hex_digit (unat b mod 16)]) bs)"

section \<open>Bytes and words\<close>

lemma le_word32_bytes: "le_word32 (ucast w) (ucast (drop_bit 8 w)) (ucast (drop_bit 16 w)) (ucast (drop_bit 24 w)) = w"
  unfolding le_word32_def
proof (rule bit_word_eqI)
  fix n assume "n < LENGTH(32)"
  then have "n < 8 \<or> (8 \<le> n \<and> n < 16) \<or> (16 \<le> n \<and> n < 24) \<or> (24 \<le> n \<and> n < 32)"
    by auto
  then show "bit (ucast (ucast w :: u8) OR push_bit 8 (ucast (ucast (drop_bit 8 w) :: u8)) OR
       push_bit 16 (ucast (ucast (drop_bit 16 w) :: u8)) OR push_bit 24 (ucast (ucast (drop_bit 24 w) :: u8)) :: u32) n = bit w n"
    by (auto simp: bit_simps)
qed

lemma bit_u8_high: "bit (b :: u8) (8 + n) = False" "bit b (16 + n) = False" "bit b (24 + n) = False"
  by (auto dest: bit_imp_le_length)

lemma le_bytes32_word: "le_bytes32 (le_word32 b0 b1 b2 b3) = [b0, b1, b2, b3]"
  unfolding le_word32_def le_bytes32_def
  apply simp
  apply (intro conjI; rule bit_word_eqI)
  apply (auto simp add: bit_simps bit_u8_high)
  done

section \<open>The compression function is the reference\<close>

lemma ch_eq: "zkwasm_sha256_ch x y z = Ch x y z"
  unfolding zkwasm_sha256_ch_def Ch_def
  by (rule bit_word_eqI) (auto simp: bit_simps)

lemma maj_eq: "zkwasm_sha256_maj x y z = Maj x y z"
  unfolding zkwasm_sha256_maj_def Maj_def
  by (rule bit_word_eqI) (auto simp: bit_simps)

lemma ROTR32_rotr: "0 < n \<Longrightarrow> n < 32 \<Longrightarrow> ROTR32 x n = word_rotr n x"
  unfolding ROTR32_def
proof (rule bit_word_eqI)
  fix k assume n: "0 < n" "n < 32" and "k < LENGTH(32)"
  then have k: "k < 32" by simp
  show "bit (drop_bit n x XOR push_bit (32 - n) x) k = bit (word_rotr n x) k"
  proof (cases "k + n < 32")
    case True
    then have "\<not> 32 - n \<le> k" using n by arith
    then show ?thesis using True k by (simp add: bit_simps bit_word_rotr_iff add.commute)
  next
    case False
    then have "\<not> bit x (n + k)" by (auto dest: bit_imp_le_length)
    moreover have "(k + n) mod 32 = k + n - 32" using False n k
      by (simp add: mod_if)
    moreover have "32 - n \<le> k" "k - (32 - n) = k + n - 32" using False n by arith+
    ultimately show ?thesis using k by (simp add: bit_simps bit_word_rotr_iff add.commute)
  qed
qed

lemma sigma_eqs:
  "zkwasm_sha256_lsigma0 x = Sigma0 x" "zkwasm_sha256_lsigma1 x = Sigma1 x"
  "zkwasm_sha256_ssigma0 x = sigma0 x" "zkwasm_sha256_ssigma1 x = sigma1 x"
  by (simp_all add: zkwasm_sha256_lsigma0_def zkwasm_sha256_lsigma1_def zkwasm_sha256_ssigma0_def
      zkwasm_sha256_ssigma1_def Sigma0_def Sigma1_def sigma0_def sigma1_def ROTR32_rotr)

lemma code_round_fips: "code_round k w s = fips_round k w s"
  by (simp add: code_round_def fips_round_def ch_eq maj_eq sigma_eqs Let_def add.assoc split: prod.splits)

lemma ROUND_vars_at_small:
  "t < 8 \<Longrightarrow> vars_at (Suc t) (ROUND (role t 0) (role t 1) (role t 2) (role t 3) (role t 4) (role t 5) (role t 6) (role t 7) k w v)
     = code_round k w (vars_at t v)"
proof -
  assume "t < 8"
  then have "t = 0 \<or> t = 1 \<or> t = 2 \<or> t = 3 \<or> t = 4 \<or> t = 5 \<or> t = 6 \<or> t = 7" by arith
  then show ?thesis
    by (elim disjE; simp add: vars_at_def role_def ROUND_def code_round_def Let_def)
qed

lemma ROUND_vars_at:
  "vars_at (Suc t) (ROUND (role t 0) (role t 1) (role t 2) (role t 3) (role t 4) (role t 5) (role t 6) (role t 7) k w v)
     = code_round k w (vars_at t v)"
proof -
  have "vars_at (Suc t) = vars_at (Suc (t mod 8))" "vars_at t = vars_at (t mod 8)"
    by (simp_all add: vars_at_def role_def mod_Suc_eq fun_eq_iff)
  moreover have "role t = role (t mod 8)"
    by (simp add: role_def fun_eq_iff)
  ultimately show ?thesis
    using ROUND_vars_at_small[of "t mod 8" k w v] 
    by simp
qed

lemma upt_0_16: "[0..<16] = [0, 1, 2, 3, 4, 5, 6, 7, 8, 9, 10, 11, 12, 13, 14, 15 :: nat]"
  by code_simp

lemma rounds_1_16_eq: "rounds_1_16 block = map (statement block) [0..<16]"
  by (simp add: rounds_1_16_def statement_def role_def upt_0_16)

lemma rounds_17_64_16: "rounds_17_64 16 = map (statement block) [16..<32]"
  by (simp add: rounds_17_64_def statement_def role_def upt_rec_numeral)
lemma rounds_17_64_32: "rounds_17_64 32 = map (statement block) [32..<48]"
  by (simp add: rounds_17_64_def statement_def role_def upt_rec_numeral)
lemma rounds_17_64_48: "rounds_17_64 48 = map (statement block) [48..<64]"
  by (simp add: rounds_17_64_def statement_def role_def upt_rec_numeral)

lemma run_append: "run (xs @ ys) s = run ys (run xs s)"
  by (simp add: run_def)

lemma rounds_loop_unrolled:
  "rounds_loop 16 16 s = run (rounds_17_64 48) (run (rounds_17_64 32) (run (rounds_17_64 16) s))"
  by simp

lemma all_rounds: "rounds_loop 16 16 (run (rounds_1_16 block) s) = run (map (statement block) [0..<64]) s"
proof -
  have "[0..<64] = [0..<16] @ [16..<32] @ [32..<48] @ [48..<64::nat]"
    by code_simp
  then show ?thesis
    unfolding rounds_loop_unrolled rounds_1_16_eq rounds_17_64_16[of block] rounds_17_64_32[of block] rounds_17_64_48[of block]
    by (simp only: map_append run_append)
qed

lemma and_15_int: "(x :: int) AND 15 = x mod 16"
proof -
  have "take_bit 4 x = x AND mask 4" by (rule take_bit_eq_mask)
  moreover have "take_bit 4 x = x mod 2 ^ 4" by (rule take_bit_eq_mod)
  moreover have "mask 4 = (15::int)" by (simp add: mask_eq_exp_minus_1)
  ultimately show ?thesis by simp
qed

lemma mod16_neq: "j < t \<Longrightarrow> t < j + 16 \<Longrightarrow> j mod 16 \<noteq> t mod (16::nat)"
proof
  assume a: "j < t" "t < j + 16" and e: "j mod 16 = t mod 16"
  have "16 dvd t - j"
    using a e mod_eq_dvd_iff_nat[of j t 16] by simp
  then have "16 \<le> t - j" using a by (intro dvd_imp_le) simp_all
  then show False using a by simp
qed

lemma circ_index: "16 \<le> t \<Longrightarrow> d \<le> 16 \<Longrightarrow> nat ((int (t mod 16) - int d) AND 15) = (t - d) mod 16"
proof -
  assume a: "16 \<le> t" "d \<le> 16"
  have "(int (t mod 16) - int d) mod 16 = (int t - int d) mod 16"
    by (simp add: zmod_int mod_diff_left_eq)
  also have "\<dots> = int ((t - d) mod 16)"
    using a by (simp add: zmod_int of_nat_diff)
  finally show ?thesis by (simp add: and_15_int)
qed

lemma W_inv_1_16:
  assumes "W_inv ws t W" "t < 16" "t < length ws"
  shows "W_inv ws (Suc t) (W[t := ws ! t])"
  using assms unfolding W_inv_def
  by (auto simp: nth_list_update less_Suc_eq fips_W.simps[of ws t])

lemma RECALCULATE_W_value:
  assumes "W_inv ws t W" "16 \<le> t"
  shows "RECALCULATE_W W (t mod 16) ! (t mod 16) = fips_W ws t"
proof -
  have len: "length W = 16" and inv: "\<And>j. j < t \<Longrightarrow> t \<le> j + 16 \<Longrightarrow> W ! (j mod 16) = fips_W ws j"
    using assms(1) by (auto simp: W_inv_def)
  have "(t - 16) mod 16 = t mod 16" using assms(2) by (simp add: le_mod_geq)
  then have w16: "W ! (t mod 16) = fips_W ws (t - 16)"
    using inv[of "t - 16"] assms(2) by simp
  have w2: "W ! ((t - 2) mod 16) = fips_W ws (t - 2)"
    and w7: "W ! ((t - 7) mod 16) = fips_W ws (t - 7)"
    and w15: "W ! ((t - 15) mod 16) = fips_W ws (t - 15)"
    using assms(2) by (auto intro!: inv)
  have idx: "nat ((int (t mod 16) - 2) AND 15) = (t - 2) mod 16"
    "nat ((int (t mod 16) - 7) AND 15) = (t - 7) mod 16"
    "nat ((int (t mod 16) - 15) AND 15) = (t - 15) mod 16"
    using circ_index[of t 2] circ_index[of t 7] circ_index[of t 15] assms(2) by simp_all
  show ?thesis
    unfolding RECALCULATE_W_def idx
    using assms(2) len
    by (simp add: w16 w2 w7 w15 sigma_eqs fips_W.simps[of ws t])
qed

lemma W_inv_17_64:
  assumes "W_inv ws t W" "16 \<le> t"
  shows "W_inv ws (Suc t) (RECALCULATE_W W (t mod 16))"
proof -
  have len: "length W = 16" and inv: "\<And>j. j < t \<Longrightarrow> t \<le> j + 16 \<Longrightarrow> W ! (j mod 16) = fips_W ws j"
    using assms(1) by (auto simp: W_inv_def)
  have new: "RECALCULATE_W W (t mod 16) ! (t mod 16) = fips_W ws t"
    by (rule RECALCULATE_W_value[OF assms])
  have old: "RECALCULATE_W W (t mod 16) ! (j mod 16) = W ! (j mod 16)" if "j < t" "t < j + 16" for j
    using mod16_neq[OF that] by (simp add: RECALCULATE_W_def)
  have len': "length (RECALCULATE_W W (t mod 16)) = 16"
    using len by (simp add: RECALCULATE_W_def)
  show ?thesis
    unfolding W_inv_def
  proof (intro conjI allI impI)
    fix j assume j: "j < Suc t \<and> Suc t \<le> j + 16"
    show "RECALCULATE_W W (t mod 16) ! (j mod 16) = fips_W ws j"
    proof (cases "j = t")
      case True then show ?thesis using new by simp
    next
      case False
      then have "j < t" "t < j + 16" using j by auto
      then show ?thesis using old[of j] inv[of j] by simp
    qed
  qed (rule len')
qed

lemma state_after_Suc: "state_after block (Suc t) s = statement block t (state_after block t s)"
  by (simp add: state_after_def run_def)

lemma state_after_inv:
  assumes "length block = 16" "length W0 = 16" "t \<le> 64"
  shows "vars_at t (fst (state_after block t (v0, W0))) =
           fold (\<lambda>i. fips_round (rhash_k256 ! i) (fips_W (map bswap_32 block) i)) [0..<t] (vars_at 0 v0)
         \<and> W_inv (map bswap_32 block) t (snd (state_after block t (v0, W0)))"
  using assms(3)
proof (induction t)
  case 0
  then show ?case using assms(2) by (simp add: state_after_def run_def W_inv_def)
next
  case (Suc t)
  obtain v W where s: "state_after block t (v0, W0) = (v, W)" by (cases "state_after block t (v0, W0)")
  from Suc have ih1: "vars_at t v = fold (\<lambda>i. fips_round (rhash_k256 ! i) (fips_W (map bswap_32 block) i)) [0..<t] (vars_at 0 v0)"
    and ih2: "W_inv (map bswap_32 block) t W"
    by (simp_all add: s)
  show ?case
  proof (cases "t < 16")
    case True
    then have bs: "bswap_32 (block ! t) = map bswap_32 block ! t" using assms(1) by simp
    have "fips_W (map bswap_32 block) t = bswap_32 (block ! t)"
      using True bs by (simp add: fips_W.simps[of _ t])
    moreover have "W_inv (map bswap_32 block) (Suc t) (W[t := bswap_32 (block ! t)])"
      unfolding bs using W_inv_1_16[OF ih2 True] assms(1) True by simp
    ultimately show ?thesis
      using True by (simp add: state_after_Suc s statement_def ROUND_1_16_def ROUND_vars_at code_round_fips ih1 del: One_nat_def)
  next
    case False
    then have t: "16 \<le> t" by simp
    have k: "t - t mod 16 + t mod 16 = t" by simp
    show ?thesis
      using False W_inv_17_64[OF ih2 t] RECALCULATE_W_value[OF ih2 t]
      by (simp add: state_after_Suc s statement_def ROUND_17_64_def ROUND_vars_at code_round_fips ih1 k del: One_nat_def)
  qed
qed

declare rounds_loop.simps [simp del]

lemma unrolled_rounds_eq: "unrolled_rounds block = map (statement block) [0..<64]"
proof -
  have "[0..<64] = [0..<16] @ [16..<32] @ [32..<48] @ [48..<64::nat]"
    by code_simp
  then show ?thesis
    unfolding unrolled_rounds_def rounds_1_16_eq rounds_17_64_16[of block] rounds_17_64_32[of block] rounds_17_64_48[of block]
    by (simp only: map_append)
qed

lemma process_block_unrolled:
  "sha256_process_block hs block =
     (case run (unrolled_rounds block) (init_vars hs, replicate 16 0) of
        (v, W) \<Rightarrow>
          hs[0 := hs ! 0 + v A, 1 := hs ! 1 + v B, 2 := hs ! 2 + v C, 3 := hs ! 3 + v D,
             4 := hs ! 4 + v E, 5 := hs ! 5 + v F, 6 := hs ! 6 + v G, 7 := hs ! 7 + v H])"
  unfolding sha256_process_block_def all_rounds unrolled_rounds_eq ..

lemma list8: "length hs = 8 \<Longrightarrow> \<exists>h0 h1 h2 h3 h4 h5 h6 h7. hs = [h0, h1, h2, h3, h4, h5, h6, h7]"
  by (auto simp: eval_nat_numeral length_Suc_conv)

lemma process_block_words:
  assumes "length hs = 8" "length block = 16"
  shows "sha256_process_block hs block = fips_compress hs (map bswap_32 block)"
proof -
  obtain v W where s: "state_after block 64 (init_vars hs, replicate 16 0) = (v, W)"
    by (cases "state_after block 64 (init_vars hs, replicate 16 0)")
  have "vars_at 64 v = fold (\<lambda>i. fips_round (rhash_k256 ! i) (fips_W (map bswap_32 block) i)) [0..<64]
          (vars_at 0 (init_vars hs))"
    using state_after_inv[of block "replicate 16 0" 64 "init_vars hs"] assms(2) by (simp add: s)
  moreover have "vars_at 64 v = (v A, v B, v C, v D, v E, v F, v G, v H)"
    by (simp add: vars_at_def role_def)
  moreover have "vars_at 0 (init_vars hs) = (hs ! 0, hs ! 1, hs ! 2, hs ! 3, hs ! 4, hs ! 5, hs ! 6, hs ! 7)"
    by (simp add: vars_at_def role_def init_vars_def)
  moreover obtain h0 h1 h2 h3 h4 h5 h6 h7 where "hs = [h0, h1, h2, h3, h4, h5, h6, h7]"
    using list8[OF assms(1)] by blast
  ultimately show ?thesis
    using s unfolding process_block_unrolled unrolled_rounds_eq fips_compress_def state_after_def
    by (auto split: prod.splits)
qed

lemma bswap_le_word32: "bswap_32 (le_word32 b0 b1 b2 b3) = be_word32 b0 b1 b2 b3"
proof -
  have "le_bytes32 (le_word32 b0 b1 b2 b3) = [b0, b1, b2, b3]" by (rule le_bytes32_word)
  then show ?thesis
    by (simp add: bswap_32_def le_bytes32_def be_word32_def le_word32_def or.commute or.left_commute)
qed

lemma bswap_le_words: "map bswap_32 (le_words bs) = be_words bs"
  by (induction bs rule: le_words.induct) (simp_all add: bswap_le_word32)

lemma length_le_words: "length (le_words bs) = length bs div 4"
  by (induction bs rule: le_words.induct) simp_all

text \<open>
  Claim C4. For every state of eight words and every block of 64 bytes,
  \<^verbatim>\<open>sha256_process_block\<close> on the block as the little-endian target loads it is the
  compression function of FIPS 180-4 on the sixteen big-endian words of the block: 64
  rounds with \<open>T1 = h + \<Sigma>1(e) + Ch(e,f,g) + K[t] + W[t]\<close>, \<open>d + T1\<close>, the new first variable
  \<open>T1 + \<Sigma>0(a) + Maj(a,b,c)\<close>, the tuple shifted by one place, and the working variables
  added back into the state modulo \<open>2^32\<close>. The macros for \<open>Ch\<close> and \<open>Maj\<close> are equal to
  the definitions of the specification.
\<close>

theorem sha256_process_block_fips:
  assumes "length hs = 8" "length bs = 64"
  shows "sha256_process_block hs (le_words bs) = fips_compress hs (be_words bs)
         \<and> (\<forall>x y z. zkwasm_sha256_ch x y z = Ch x y z \<and> zkwasm_sha256_maj x y z = Maj x y z)"
  using process_block_words[of hs "le_words bs"] assms
  by (simp add: length_le_words bswap_le_words ch_eq maj_eq)

theorem sha256_process_block_fips_witness:
  "length SHA256_H0 = 8 \<and> length (replicate 64 (0::u8)) = 64 \<and>
   sha256_process_block SHA256_H0 (le_words (replicate 64 0)) = fips_compress SHA256_H0 (be_words (replicate 64 0))"
  using sha256_process_block_fips[of SHA256_H0 "replicate 64 0"]
  by (simp add: SHA256_H0_def)

text \<open>
  Claim C5. For every block and every round \<open>t < 64\<close>, the entry \<open>t mod 16\<close> of the
  16-entry circular buffer right after statement \<open>t\<close> of the code, which is the round's
  input, is entry \<open>t\<close> of the full 64-entry schedule
  \<open>W[t] = \<sigma>1(W[t-2]) + W[t-7] + \<sigma>0(W[t-15]) + W[t-16]\<close> over the byte-swapped block.
\<close>

theorem circular_schedule:
  assumes "length block = 16" "length W0 = 16" "t < 64"
  shows "circular_W block t (v0, W0) ! (t mod 16) = fips_W (map bswap_32 block) t"
proof -
  have "take (Suc t) (unrolled_rounds block) = map (statement block) [0..<Suc t]"
    using assms(3) unfolding unrolled_rounds_eq by (simp add: take_map del: upt_Suc)
  then have "circular_W block t (v0, W0) = snd (state_after block (Suc t) (v0, W0))"
    by (simp only: circular_W_def state_after_def)
  moreover have "W_inv (map bswap_32 block) (Suc t) (snd (state_after block (Suc t) (v0, W0)))"
    using state_after_inv[of block W0 "Suc t" v0] assms by simp
  ultimately show ?thesis
    by (simp add: W_inv_def)
qed

theorem circular_schedule_witness:
  "length (replicate 16 (0::u32)) = 16 \<and> (20::nat) < 64 \<and>
   circular_W (replicate 16 0) 20 (init_vars SHA256_H0, replicate 16 0) ! (20 mod 16)
     = fips_W (map bswap_32 (replicate 16 0)) 20"
  using circular_schedule[of "replicate 16 0" "replicate 16 0" 20 "init_vars SHA256_H0"]
  by simp

text \<open>
  Claim C10. \<^verbatim>\<open>Hash_Init\<close> ignores its argument: for all \<open>b1\<close> and \<open>b2\<close> the resulting
  contexts are equal, with the SHA-256 initial constants in \<open>hash\<close>, length 0 and a
  digest length of 32 bytes.
\<close>

theorem Hash_Init_ignores_bits:
  assumes "length (hash c) = 8"
  shows "Hash_Init b1 c = Hash_Init b2 c \<and> hash (Hash_Init b1 c) = SHA256_H0 \<and>
         length_ctx (Hash_Init b1 c) = 0 \<and> digest_length (Hash_Init b1 c) = 32"
proof -
  obtain h0 h1 h2 h3 h4 h5 h6 h7 where "hash c = [h0, h1, h2, h3, h4, h5, h6, h7]"
    using list8[OF assms] by blast
  then show ?thesis
    by (simp add: Hash_Init_def sha256_init_def copy_h0_pair_def SHA256_H0_def sha256_hash_size_def)
qed

theorem Hash_Init_ignores_bits_witness:
  "length (hash sctx) = 8 \<and> Hash_Init 224 sctx = Hash_Init 256 sctx \<and> hash (Hash_Init 224 sctx) = SHA256_H0 \<and>
         length_ctx (Hash_Init 224 sctx) = 0 \<and> digest_length (Hash_Init 224 sctx) = 32"
proof -
  have h: "length (hash sctx) = 8" by (simp add: sctx_def)
  from h Hash_Init_ignores_bits[OF h, of 224 256] show ?thesis by blast
qed

section \<open>Buffering: the invariant of the context\<close>

subsection \<open>Byte stores and the copy loop\<close>

lemma length_le_bytes32: "length (le_bytes32 w) = 4"
  by (simp add: le_bytes32_def)

lemma length_le_bytes: "length (le_bytes ws) = 4 * length ws"
  by (induction ws) (simp_all add: le_bytes_def length_le_bytes32)

lemma le_bytes_Cons: "le_bytes (w # ws) = le_bytes32 w @ le_bytes ws"
  by (simp add: le_bytes_def)

lemma le_bytes_Nil: "le_bytes [] = []"
  by (simp add: le_bytes_def)

lemma le_words_le_bytes: "le_words (le_bytes ws) = ws"
proof (induction ws)
  case Nil
  then show ?case by (simp add: le_bytes_Nil)
next
  case (Cons w ws)
  then show ?case
    using le_word32_bytes[of w] by (simp add: le_bytes_Cons le_bytes32_def)
qed

lemma list4: "length bs = 4 \<Longrightarrow> \<exists>b0 b1 b2 b3. bs = [b0, b1, b2, b3]"
  by (auto simp: eval_nat_numeral length_Suc_conv)

lemma le_bytes32_set_byte:
  assumes "k < 4"
  shows "le_bytes32 (le_word32 ((le_bytes32 w)[k := b] ! 0) ((le_bytes32 w)[k := b] ! 1)
                        ((le_bytes32 w)[k := b] ! 2) ((le_bytes32 w)[k := b] ! 3)) = (le_bytes32 w)[k := b]"
proof -
  obtain b0 b1 b2 b3 where "(le_bytes32 w)[k := b] = [b0, b1, b2, b3]"
    using list4[of "(le_bytes32 w)[k := b]"] by (auto simp: length_le_bytes32)
  then show ?thesis by (simp add: le_bytes32_word)
qed

lemma store8_Cons_low: "p < 4 \<Longrightarrow> le_bytes (store8 (w # ws) p b) = (le_bytes32 w)[p := b] @ le_bytes ws"
  by (simp add: store8_def Let_def le_bytes_Cons le_bytes32_set_byte del: One_nat_def)

lemma store8_Cons_high: "4 \<le> p \<Longrightarrow> store8 (w # ws) p b = w # store8 ws (p - 4) b"
proof -
  assume p: "4 \<le> p"
  then have "p div 4 = Suc ((p - 4) div 4)" "p mod 4 = (p - 4) mod 4"
    by (simp_all add: le_div_geq le_mod_geq)
  then show ?thesis by (simp add: store8_def Let_def)
qed

lemma le_bytes_store8: "p < 4 * length ws \<Longrightarrow> le_bytes (store8 ws p b) = (le_bytes ws)[p := b]"
proof (induction ws arbitrary: p)
  case Nil
  then show ?case by simp
next
  case (Cons w ws)
  show ?case
  proof (cases "p < 4")
    case True
    then show ?thesis
      by (simp add: store8_Cons_low le_bytes_Cons list_update_append length_le_bytes32)
  next
    case False
    then have "p - 4 < 4 * length ws" using Cons.prems by simp
    then show ?thesis
      using False Cons.IH[of "p - 4"]
      by (simp add: store8_Cons_high le_bytes_Cons list_update_append length_le_bytes32)
  qed
qed

lemma length_store8: "length (store8 ws p b) = length ws"
  by (simp add: store8_def Let_def)

lemma length_copy_loop: "length (copy_loop i e off msg m) = length m"
proof (induction i e off msg m rule: copy_loop.induct)
  case (1 i e off msg m)
  then show ?case
    by (subst copy_loop.simps) (simp add: length_store8)
qed

lemma le_bytes_copy_loop:
  "i \<le> e \<Longrightarrow> off + e \<le> 4 * length m \<Longrightarrow> e \<le> length msg \<Longrightarrow>
   le_bytes (copy_loop i e off msg m) =
     take (off + i) (le_bytes m) @ take (e - i) (drop i msg) @ drop (off + e) (le_bytes m)"
proof (induction i e off msg m rule: copy_loop.induct)
  case (1 i e off msg m)
  show ?case
  proof (cases "i < e")
    case True
    let ?m' = "store8 m (off + i) (msg ! i)"
    have b: "le_bytes ?m' = (le_bytes m)[off + i := msg ! i]"
      using True "1.prems" by (intro le_bytes_store8) simp
    have "le_bytes (copy_loop (i + 1) e off msg ?m') =
        take (off + (i + 1)) (le_bytes ?m') @ take (e - (i + 1)) (drop (i + 1) msg) @ drop (off + e) (le_bytes ?m')"
      using True "1.prems" by (intro "1.IH") (simp_all add: length_store8)
    then have ih: "le_bytes (copy_loop (Suc i) e off msg ?m') =
        take (off + (i + 1)) (le_bytes ?m') @ take (e - (i + 1)) (drop (i + 1) msg) @ drop (off + e) (le_bytes ?m')"
      by simp
    have l: "off + i < length (le_bytes m)" using True "1.prems" by (simp add: length_le_bytes)
    have t: "take (Suc (off + i)) ((le_bytes m)[off + i := msg ! i]) = take (off + i) (le_bytes m) @ [msg ! i]"
      using l by (simp add: take_Suc_conv_app_nth)
    have d: "drop (off + e) ((le_bytes m)[off + i := msg ! i]) = drop (off + e) (le_bytes m)"
      using True by simp
    have m: "take (e - i) (drop i msg) = msg ! i # take (e - (i + 1)) (drop (i + 1) msg)"
    proof -
      have "e - i = Suc (e - (i + 1))" using True by simp
      moreover have "drop i msg = msg ! i # drop (i + 1) msg"
        using True "1.prems" by (simp add: Cons_nth_drop_Suc)
      ultimately show ?thesis by simp
    qed
    show ?thesis
      using True by (subst copy_loop.simps) (simp add: ih b t d m)
  next
    case False
    then show ?thesis using "1.prems" by (subst copy_loop.simps) simp
  qed
qed

subsection \<open>Indices and the chaining value\<close>

lemma and_63_u32: "(x :: u32) AND 63 = take_bit 6 x"
proof -
  have "mask 6 = (63 :: u32)" by (simp add: mask_eq_exp_minus_1)
  then show ?thesis by (simp add: take_bit_eq_mask)
qed

lemma and_3_u32: "(x :: u32) AND 3 = take_bit 2 x"
proof -
  have "mask 2 = (3 :: u32)" by (simp add: mask_eq_exp_minus_1)
  then show ?thesis by (simp add: take_bit_eq_mask)
qed

lemma unat_index: "unat ((ucast (w :: u64) :: u32) AND 63) = unat w mod 64"
proof -
  have "unat (take_bit 6 (ucast w :: u32)) = take_bit 6 (unat (ucast w :: u32))"
    by (rule unsigned_take_bit_eq)
  also have "unat (ucast w :: u32) = take_bit 32 (unat w)"
    by (simp add: unsigned_ucast_eq)
  also have "take_bit 6 (take_bit 32 (unat w)) = take_bit 6 (unat w)"
    by simp
  also have "\<dots> = unat w mod 64"
    by (simp add: take_bit_eq_mod)
  finally show ?thesis by (simp only: and_63_u32)
qed

lemma unat_of_nat_mod64: "unat (of_nat n :: u64) mod 64 = n mod 64"
proof -
  have "(64::nat) dvd 2 ^ 64" by simp
  then show ?thesis
    by (simp add: unat_of_nat mod_mod_cancel)
qed

lemma length_process_block: "length (sha256_process_block hs block) = length hs"
  by (simp add: sha256_process_block_def split: prod.splits)

lemma chain_short: "length M < 64 \<Longrightarrow> chain hs M = hs"
  by (simp add: chain.simps)

lemma length_chain: "length (chain hs M) = length hs"
  by (induction hs M rule: chain.induct) (subst chain.simps, simp add: length_process_block)

lemma chain_append:
  "length P mod 64 = 0 \<Longrightarrow> chain hs (P @ N) = chain (chain hs P) N"
proof (induction hs P rule: chain.induct)
  case (1 hs P)
  show ?case
  proof (cases "length P < 64")
    case True
    then have "P = []" using "1.prems" by simp
    then show ?thesis by (simp add: chain_short)
  next
    case False
    then have "length (drop 64 P) mod 64 = 0"
      using "1.prems" le_mod_geq[of 64 "length P"] by simp
    then have "chain (sha256_process_block hs (le_words (take 64 P))) (drop 64 P @ N) =
          chain (chain (sha256_process_block hs (le_words (take 64 P))) (drop 64 P)) N"
      using False by (intro "1.IH") simp_all
    then show ?thesis
      using False by (subst chain.simps, subst (2) chain.simps) simp
  qed
qed

lemma chain_block: "length blk = 64 \<Longrightarrow> chain hs blk = sha256_process_block hs (le_words blk)"
  by (subst chain.simps) (simp add: chain_short)

lemma block_loop_chain:
  "unat sz = length msg \<Longrightarrow>
   block_loop sz msg hs = (of_nat (length msg mod 64), drop (length msg - length msg mod 64) msg, chain hs msg)"
proof (induction sz msg hs rule: block_loop.induct)
  case (1 sz msg hs)
  show ?case
  proof (cases "64 \<le> sz")
    case True
    then have l: "64 \<le> length msg" using "1.prems" by (simp add: word_le_nat_alt)
    then have u: "unat (sz - 64) = length (drop 64 msg)"
      using True "1.prems" by (simp add: unat_sub)
    have m: "(length msg - 64) mod 64 = length msg mod 64" using l by (simp add: le_mod_geq)
    have "(length msg - 64) mod 64 \<le> length msg - 64" by (rule mod_less_eq_dividend)
    then have "length msg mod 64 \<le> length msg - 64" by (simp only: m)
    then have "length msg - 64 - length msg mod 64 + 64 = length msg - length msg mod 64"
      using l by arith
    with m show ?thesis
      using True l "1.IH"[OF True u]
      by (subst block_loop.simps, subst chain.simps) (simp add: add.commute)
  next
    case False
    then have "length msg < 64" using "1.prems" by (simp add: word_le_nat_alt)
    moreover have "sz = of_nat (length msg)" using "1.prems"[symmetric] by simp
    ultimately show ?thesis
      using False by (subst block_loop.simps) (simp add: chain_short)
  qed
qed

subsection \<open>\<^verbatim>\<open>Hash_Update\<close> keeps the invariant\<close>

lemma unat_of_nat_small: "n < 64 \<Longrightarrow> unat (of_nat n :: u32) = n"
  by (simp add: unat_of_nat)

lemma update_rest_spec:
  assumes "unat sz = length msg" "length (message c) = 16"
  shows "hash (update_rest sz msg c) = chain (hash c) msg"
    and "take (length msg mod 64) (le_bytes (message (update_rest sz msg c))) =
           drop (length msg - length msg mod 64) msg"
    and "length (message (update_rest sz msg c)) = 16"
    and "length_ctx (update_rest sz msg c) = length_ctx c"
    and "digest_length (update_rest sz msg c) = digest_length c"
proof -
  let ?r = "length msg mod 64"
  let ?D = "drop (length msg - ?r) msg"
  have bl: "block_loop sz msg (hash c) = (of_nat ?r, ?D, chain (hash c) msg)"
    by (rule block_loop_chain[OF assms(1)])
  have r: "unat (of_nat ?r :: u32) = ?r" by (simp add: unat_of_nat_small)
  have z: "(of_nat ?r :: u32) \<noteq> 0 \<longleftrightarrow> ?r \<noteq> 0"
    using r by (metis unat_0_iff)
  have lD: "length ?D = ?r" by simp
  have cp: "le_bytes (copy_loop 0 ?r 0 ?D (message c)) = ?D @ drop ?r (le_bytes (message c))"
    using le_bytes_copy_loop[of 0 ?r 0 "message c" ?D] assms(2) lD by simp
  show "hash (update_rest sz msg c) = chain (hash c) msg"
    by (simp add: update_rest_def bl Let_def)
  show "take ?r (le_bytes (message (update_rest sz msg c))) = ?D"
    using cp lD by (simp add: update_rest_def bl Let_def z r del: length_drop)
  show "length (message (update_rest sz msg c)) = 16"
    using assms(2) by (simp add: update_rest_def bl Let_def length_copy_loop)
  show "length_ctx (update_rest sz msg c) = length_ctx c"
    by (simp add: update_rest_def bl Let_def)
  show "digest_length (update_rest sz msg c) = digest_length c"
    by (simp add: update_rest_def bl Let_def)
qed

lemma Hash_Update_aligned:
  "(ucast (length_ctx c) :: u32) AND 63 = 0 \<Longrightarrow>
   Hash_Update sz data c = update_rest sz data (c\<lparr>length_ctx := length_ctx c + ucast sz\<rparr>)"
  by (simp add: Hash_Update_def Let_def)

lemma Hash_Update_partial:
  "(ucast (length_ctx c) :: u32) AND 63 \<noteq> 0 \<Longrightarrow> sz < 64 - ((ucast (length_ctx c) :: u32) AND 63) \<Longrightarrow>
   Hash_Update sz data c =
     c\<lparr>length_ctx := length_ctx c + ucast sz,
       message := copy_loop 0 (unat sz) (unat ((ucast (length_ctx c) :: u32) AND 63)) data (message c)\<rparr>"
  by (simp add: Hash_Update_def Let_def)

lemma Hash_Update_fill:
  "(ucast (length_ctx c) :: u32) AND 63 \<noteq> 0 \<Longrightarrow> \<not> sz < 64 - ((ucast (length_ctx c) :: u32) AND 63) \<Longrightarrow>
   Hash_Update sz data c =
     update_rest (sz - (64 - ((ucast (length_ctx c) :: u32) AND 63)))
       (drop (unat (64 - ((ucast (length_ctx c) :: u32) AND 63))) data)
       (c\<lparr>length_ctx := length_ctx c + ucast sz,
          message := copy_loop 0 (unat (64 - ((ucast (length_ctx c) :: u32) AND 63)))
                       (unat ((ucast (length_ctx c) :: u32) AND 63)) data (message c),
          hash := sha256_process_block (hash c)
                    (copy_loop 0 (unat (64 - ((ucast (length_ctx c) :: u32) AND 63)))
                       (unat ((ucast (length_ctx c) :: u32) AND 63)) data (message c))\<rparr>)"
  by (simp add: Hash_Update_def Let_def)

lemma unat_left: "unat (64 - ((ucast (w :: u64) :: u32) AND 63)) = 64 - unat w mod 64"
proof -
  have "unat ((ucast w :: u32) AND 63) \<le> unat (64 :: u32)"
    by (simp add: unat_index)
  then have "(ucast w :: u32) AND 63 \<le> 64" by (simp only: word_le_nat_alt)
  then show ?thesis by (simp add: unat_sub unat_index)
qed

lemma complete_part_mod: "(n - n mod 64) mod 64 = (0::nat)"
  by (simp add: minus_mod_eq_mult_div)

lemma chain_complete_part: "chain hs M = chain hs (take (length M - length M mod 64) M)"
proof -
  let ?P = "take (length M - length M mod 64) M" and ?T = "drop (length M - length M mod 64) M"
  have "length ?P mod 64 = 0" by (simp add: complete_part_mod)
  then have "chain hs (?P @ ?T) = chain (chain hs ?P) ?T" by (rule chain_append)
  moreover have "length ?T < 64" by simp
  ultimately show ?thesis by (simp add: chain_short del: length_drop)
qed

lemma ucast_sz: "unat (sz :: u32) = n \<Longrightarrow> (ucast sz :: u64) = of_nat n"
  by (metis of_nat_unat)

lemma ctx_of_index: "ctx_of M c \<Longrightarrow> unat ((ucast (length_ctx c) :: u32) AND 63) = length M mod 64"
  by (simp add: ctx_of_def unat_index unat_of_nat_mod64)

lemma mod64_add_aligned: "a mod 64 = 0 \<Longrightarrow> (a + b) mod 64 = b mod (64::nat)"
proof -
  assume "a mod 64 = 0"
  moreover have "(a + b) mod 64 = (a mod 64 + b) mod 64" by (simp add: mod_add_left_eq)
  ultimately show ?thesis by simp
qed

lemma mod64_add_small: "b < 64 - a mod 64 \<Longrightarrow> (a + b) mod 64 = a mod 64 + (b::nat)"
proof -
  assume "b < 64 - a mod 64"
  then have "a mod 64 + b < 64" by simp
  moreover have "(a + b) mod 64 = (a mod 64 + b) mod 64" by (simp add: mod_add_left_eq)
  ultimately show ?thesis by simp
qed

lemma length_H0: "length SHA256_H0 = 8"
  by (simp add: SHA256_H0_def)

lemma ctx_ofI:
  assumes "length (message c) = 16" "digest_length c = 32" "length_ctx c = of_nat (length M)"
    "hash c = chain SHA256_H0 M"
    "take (length M mod 64) (le_bytes (message c)) = drop (length M - length M mod 64) M"
  shows "ctx_of M c"
  using assms by (simp add: ctx_of_def wf_ctx_def length_chain length_H0)

lemma update_aligned_inv:
  assumes inv: "ctx_of M c" and sz: "unat sz = length data" and r: "length M mod 64 = 0"
  shows "ctx_of (M @ data) (Hash_Update sz data c)"
proof -
  let ?c1 = "c\<lparr>length_ctx := length_ctx c + ucast sz\<rparr>"
  let ?n = "length data"
  have "unat ((ucast (length_ctx c) :: u32) AND 63) = 0"
    using ctx_of_index[OF inv] r by simp
  then have "(ucast (length_ctx c) :: u32) AND 63 = 0" by (simp only: unat_0_iff)
  then have upd: "Hash_Update sz data c = update_rest sz data ?c1"
    by (rule Hash_Update_aligned)
  have m16: "length (message ?c1) = 16" using inv by (simp add: ctx_of_def wf_ctx_def)
  note spec = update_rest_spec[OF sz m16]
  have md: "length (M @ data) mod 64 = ?n mod 64"
    using r by (simp add: mod64_add_aligned)
  have "?n mod 64 \<le> ?n" by (rule mod_less_eq_dividend)
  then have dr: "length (M @ data) - ?n mod 64 = length M + (?n - ?n mod 64)" by simp
  show ?thesis
    unfolding upd
  proof (rule ctx_ofI)
    show "length (message (update_rest sz data ?c1)) = 16" by (rule spec(3))
    show "digest_length (update_rest sz data ?c1) = 32"
      unfolding spec(5) using inv by (simp add: ctx_of_def)
    show "length_ctx (update_rest sz data ?c1) = of_nat (length (M @ data))"
      unfolding spec(4) using inv by (simp add: ctx_of_def ucast_sz[OF sz])
    show "hash (update_rest sz data ?c1) = chain SHA256_H0 (M @ data)"
      unfolding spec(1) using inv by (simp add: ctx_of_def chain_append[OF r])
    show "take (length (M @ data) mod 64) (le_bytes (message (update_rest sz data ?c1))) =
          drop (length (M @ data) - length (M @ data) mod 64) (M @ data)"
      unfolding md dr using spec(2) by simp
  qed
qed

lemma update_partial_inv:
  assumes inv: "ctx_of M c" and sz: "unat sz = length data" and r: "length M mod 64 \<noteq> 0"
    and small: "length data < 64 - length M mod 64"
  shows "ctx_of (M @ data) (Hash_Update sz data c)"
proof -
  let ?r = "length M mod 64" and ?n = "length data"
  let ?idx = "(ucast (length_ctx c) :: u32) AND 63"
  have idx: "unat ?idx = ?r" by (rule ctx_of_index[OF inv])
  then have nz: "?idx \<noteq> 0" using r by (metis unat_0_iff)
  have lt: "sz < 64 - ?idx"
    using small sz inv by (simp add: word_less_nat_alt unat_left ctx_of_def unat_of_nat_mod64)
  have upd: "Hash_Update sz data c =
     c\<lparr>length_ctx := length_ctx c + ucast sz, message := copy_loop 0 ?n ?r data (message c)\<rparr>"
    using Hash_Update_partial[OF nz lt] by (simp add: idx sz)
  have m16: "length (message c) = 16" using inv by (simp add: ctx_of_def wf_ctx_def)
  have tail: "take ?r (le_bytes (message c)) = drop (length M - ?r) M"
    using inv by (simp add: ctx_of_def)
  have cp: "le_bytes (copy_loop 0 ?n ?r data (message c)) =
      take ?r (le_bytes (message c)) @ data @ drop (?r + ?n) (le_bytes (message c))"
    using le_bytes_copy_loop[of 0 ?n ?r "message c" data] small m16 by simp
  have md: "length (M @ data) mod 64 = ?r + ?n"
    using small by (simp add: mod64_add_small)
  have "?r \<le> length M" by (rule mod_less_eq_dividend)
  then have dr: "length (M @ data) - (?r + ?n) = length M - ?r" by simp
  have lt2: "length (take ?r (le_bytes (message c))) = ?r"
    using m16 by (simp add: length_le_bytes)
  have "take (length (M @ data) - length (M @ data) mod 64) (M @ data) = take (length M - ?r) M"
    unfolding md dr by simp
  then have c1: "chain SHA256_H0 (M @ data) = chain SHA256_H0 (take (length M - ?r) M)"
    using chain_complete_part[of SHA256_H0 "M @ data"] by (simp only:)
  show ?thesis
    unfolding upd
  proof (rule ctx_ofI)
    show "hash (c\<lparr>length_ctx := length_ctx c + ucast sz, message := copy_loop 0 ?n ?r data (message c)\<rparr>)
          = chain SHA256_H0 (M @ data)"
      using inv chain_complete_part[of SHA256_H0 M] by (simp add: c1 ctx_of_def)
    show "take (length (M @ data) mod 64)
           (le_bytes (message (c\<lparr>length_ctx := length_ctx c + ucast sz, message := copy_loop 0 ?n ?r data (message c)\<rparr>)))
          = drop (length (M @ data) - length (M @ data) mod 64) (M @ data)"
      unfolding md dr using lt2 by (simp add: cp tail del: length_take length_drop)
  qed (use inv m16 in \<open>simp_all add: ctx_of_def length_copy_loop ucast_sz[OF sz]\<close>)
qed

lemma update_fill_inv:
  assumes inv: "ctx_of M c" and sz: "unat sz = length data" and r: "length M mod 64 \<noteq> 0"
    and big: "\<not> length data < 64 - length M mod 64"
  shows "ctx_of (M @ data) (Hash_Update sz data c)"
proof -
  let ?r = "length M mod 64" and ?n = "length data"
  let ?left = "64 - ?r"
  let ?idx = "(ucast (length_ctx c) :: u32) AND 63"
  let ?m1 = "copy_loop 0 ?left ?r data (message c)"
  let ?c2 = "c\<lparr>length_ctx := length_ctx c + ucast sz, message := ?m1,
               hash := sha256_process_block (hash c) ?m1\<rparr>"
  let ?D = "drop ?left data"
  let ?T = "drop (length M - ?r) M"
  let ?blk = "?T @ take ?left data"
  have lc: "length_ctx c = of_nat (length M)" and hc: "hash c = chain SHA256_H0 M"
    and dl: "digest_length c = 32" and m16: "length (message c) = 16"
    and tail: "take ?r (le_bytes (message c)) = ?T"
    using inv by (simp_all add: ctx_of_def wf_ctx_def)
  have idx: "unat ?idx = ?r" by (rule ctx_of_index[OF inv])
  then have nz: "?idx \<noteq> 0" using r by (metis unat_0_iff)
  have left: "unat (64 - ?idx) = ?left"
    by (simp add: unat_left lc unat_of_nat_mod64)
  have ge: "\<not> sz < 64 - ?idx"
    using big sz by (simp add: word_less_nat_alt left)
  then have "64 - ?idx \<le> sz" by simp
  then have rest: "unat (sz - (64 - ?idx)) = length ?D"
    using sz by (simp add: unat_sub left)
  have upd: "Hash_Update sz data c = update_rest (sz - (64 - ?idx)) ?D ?c2"
    using Hash_Update_fill[OF nz ge] by (simp only: left idx)
  have rl: "?r < 64" by simp
  have le: "?left \<le> ?n" using big by simp
  have "le_bytes ?m1 = take ?r (le_bytes (message c)) @ take ?left data @ drop (?r + ?left) (le_bytes (message c))"
    using le_bytes_copy_loop[of 0 ?left ?r "message c" data] m16 le by simp
  moreover have "drop (?r + ?left) (le_bytes (message c)) = []"
    using m16 by (simp add: length_le_bytes)
  ultimately have b1: "le_bytes ?m1 = ?blk" by (simp only: tail append_Nil2)
  have "le_words (le_bytes ?m1) = ?m1" by (rule le_words_le_bytes)
  then have m1: "?m1 = le_words ?blk" by (simp only: b1)
  have lb: "length ?blk = 64" using le by simp
  have "length (take (length M - ?r) M) mod 64 = 0" by (simp add: complete_part_mod)
  then have "chain SHA256_H0 (take (length M - ?r) M @ ?blk) = chain (chain SHA256_H0 (take (length M - ?r) M)) ?blk"
    by (rule chain_append)
  moreover have "take (length M - ?r) M @ ?blk = M @ take ?left data" by simp
  ultimately have h2: "chain SHA256_H0 (M @ take ?left data) = sha256_process_block (hash c) ?m1"
    using chain_complete_part[of SHA256_H0 M] chain_block[OF lb] by (simp only: hc m1)
  have "?r \<le> length M" by (rule mod_less_eq_dividend)
  then have e: "length (M @ take ?left data) = (length M - ?r) + 64" using le by simp
  have "((length M - ?r) + 64) mod 64 = (length M - ?r) mod 64" by (rule mod_add_self2)
  then have al: "length (M @ take ?left data) mod 64 = 0" by (simp only: e complete_part_mod)
  have m16': "length (message ?c2) = 16" using m16 by (simp add: length_copy_loop)
  note spec = update_rest_spec[OF rest m16']
  have split: "M @ data = (M @ take ?left data) @ ?D" by simp
  have md: "length (M @ data) mod 64 = length ?D mod 64"
    unfolding split using al by (simp only: length_append mod64_add_aligned)
  have "length ?D mod 64 \<le> length ?D" by (rule mod_less_eq_dividend)
  then have "length (M @ take ?left data) + length ?D - length ?D mod 64 =
        length (M @ take ?left data) + (length ?D - length ?D mod 64)"
    by (rule Nat.add_diff_assoc[symmetric])
  moreover have "length (M @ data) = length (M @ take ?left data) + length ?D"
    by (subst split) (rule length_append)
  ultimately have dr: "length (M @ data) - length ?D mod 64 = length (M @ take ?left data) + (length ?D - length ?D mod 64)"
    by (simp only:)
  show ?thesis
    unfolding upd
  proof (rule ctx_ofI)
    show "length (message (update_rest (sz - (64 - ?idx)) ?D ?c2)) = 16" by (rule spec(3))
    show "digest_length (update_rest (sz - (64 - ?idx)) ?D ?c2) = 32"
      unfolding spec(5) using dl by simp
    show "length_ctx (update_rest (sz - (64 - ?idx)) ?D ?c2) = of_nat (length (M @ data))"
      unfolding spec(4) by (simp add: lc ucast_sz[OF sz])
    have "hash (update_rest (sz - (64 - ?idx)) ?D ?c2) = chain (chain SHA256_H0 (M @ take ?left data)) ?D"
      unfolding spec(1) by (simp add: h2)
    also have "\<dots> = chain SHA256_H0 ((M @ take ?left data) @ ?D)"
      by (rule chain_append[OF al, symmetric])
    finally show "hash (update_rest (sz - (64 - ?idx)) ?D ?c2) = chain SHA256_H0 (M @ data)"
      by (simp only: split[symmetric])
    have "drop (length (M @ take ?left data) + (length ?D - length ?D mod 64)) ((M @ take ?left data) @ ?D)
          = drop (length ?D - length ?D mod 64) ?D"
      by (simp only: drop_append) simp
    then have "drop (length (M @ data) - length ?D mod 64) (M @ data) = drop (length ?D - length ?D mod 64) ?D"
      by (simp only: dr split[symmetric])
    then show "take (length (M @ data) mod 64) (le_bytes (message (update_rest (sz - (64 - ?idx)) ?D ?c2))) =
          drop (length (M @ data) - length (M @ data) mod 64) (M @ data)"
      unfolding md using spec(2) by (simp only:)
  qed
qed

lemma Hash_Update_ctx_of:
  assumes "ctx_of M c" "unat sz = length data"
  shows "ctx_of (M @ data) (Hash_Update sz data c)"
proof (cases "length M mod 64 = 0")
  case True
  then show ?thesis by (rule update_aligned_inv[OF assms])
next
  case False
  then show ?thesis
    using update_partial_inv[OF assms False] update_fill_inv[OF assms False] by blast
qed

lemma Hash_Init_ctx_of:
  assumes "wf_ctx c"
  shows "ctx_of [] (Hash_Init b c)"
proof -
  obtain h0 h1 h2 h3 h4 h5 h6 h7 where "hash c = [h0, h1, h2, h3, h4, h5, h6, h7]"
    using list8[of "hash c"] assms by (auto simp: wf_ctx_def)
  then show ?thesis
    using assms
    by (simp add: ctx_of_def wf_ctx_def Hash_Init_def sha256_init_def copy_h0_pair_def SHA256_H0_def
        sha256_hash_size_def chain_short)
qed

subsection \<open>The padding of \<^verbatim>\<open>Hash_Final\<close>\<close>

lemma unat_Suc_u32: "(i :: u32) < b \<Longrightarrow> unat (i + 1) = Suc (unat i)"
proof -
  assume "i < b"
  then have "unat i < unat b" by (simp add: word_less_nat_alt)
  then show ?thesis
    using unsigned_less[of b, where 'a = nat] by (simp add: unat_word_ariths)
qed

lemma zero_fill_spec:
  "unat index \<le> unat bound \<Longrightarrow> unat bound \<le> length m \<Longrightarrow>
   zero_fill index bound m =
     (bound, take (unat index) m @ replicate (unat bound - unat index) 0 @ drop (unat bound) m)"
proof (induction index bound m rule: zero_fill.induct)
  case (1 index bound m)
  show ?case
  proof (cases "index < bound")
    case True
    then have lt: "unat index < unat bound" by (simp add: word_less_nat_alt)
    have s: "unat (index + 1) = Suc (unat index)" by (rule unat_Suc_u32[OF True])
    have "zero_fill (index + 1) bound (m[unat index := 0]) =
      (bound, take (unat (index + 1)) (m[unat index := 0]) @ replicate (unat bound - unat (index + 1)) 0
              @ drop (unat bound) (m[unat index := 0]))"
      using True lt s "1.prems" by (intro "1.IH") simp_all
    moreover have "take (Suc (unat index)) (m[unat index := 0]) = take (unat index) m @ [0]"
      using lt "1.prems" by (simp add: take_Suc_conv_app_nth)
    moreover have "drop (unat bound) (m[unat index := 0]) = drop (unat bound) m"
      using lt by simp
    moreover have "replicate (unat bound - unat index) (0::u32) = 0 # replicate (unat bound - Suc (unat index)) 0"
      using lt by (simp add: replicate_Suc[symmetric] Suc_diff_Suc del: replicate_Suc)
    ultimately show ?thesis
      using True by (subst zero_fill.simps) (simp add: s)
  next
    case False
    then have "unat index = unat bound"
      using "1.prems" by (simp add: word_less_nat_alt)
    then show ?thesis using False by (subst zero_fill.simps) (simp add: word_unat_eq_iff)
  qed
qed

lemma mask_form: "(w :: u32) AND NOT (push_bit s 0xFFFFFFFF) = take_bit s w"
proof -
  have "(0xFFFFFFFF :: u32) = - 1" by simp
  then have "NOT (push_bit s (0xFFFFFFFF :: u32)) = mask s"
    by (simp only: push_bit_minus_one_eq_not_mask bit.double_compl)
  then show ?thesis by (simp only: take_bit_eq_mask)
qed

lemma bit_pad_consts:
  "bit (128 :: int) n \<longleftrightarrow> n = 7" "bit (32768 :: int) n \<longleftrightarrow> n = 15"
  "bit (8388608 :: int) n \<longleftrightarrow> n = 23" "bit (2147483648 :: int) n \<longleftrightarrow> n = 31"
proof -
  have "(128 :: int) = 2 ^ 7" "(32768 :: int) = 2 ^ 15" "(8388608 :: int) = 2 ^ 23"
    "(2147483648 :: int) = 2 ^ 31" by simp_all
  then show "bit (128 :: int) n \<longleftrightarrow> n = 7" "bit (32768 :: int) n \<longleftrightarrow> n = 15"
    "bit (8388608 :: int) n \<longleftrightarrow> n = 23" "bit (2147483648 :: int) n \<longleftrightarrow> n = 31"
    by (simp_all only: bit_exp_iff) auto
qed

lemma pad_word_0: "le_bytes32 (take_bit 0 w XOR push_bit 0 0x80) = [0x80, 0, 0, 0]"
  by (simp add: le_bytes32_def)

lemma pad_word_1: "le_bytes32 (take_bit 8 w XOR push_bit 8 0x80) = [ucast w, 0x80, 0, 0]"
  unfolding le_bytes32_def
  apply simp
  apply (intro conjI; rule bit_word_eqI)
     apply (auto simp add: bit_simps bit_pad_consts)
  done

lemma pad_word_2: "le_bytes32 (take_bit 16 w XOR push_bit 16 0x80) = [ucast w, ucast (drop_bit 8 w), 0x80, 0]"
  unfolding le_bytes32_def
  apply simp
  apply (intro conjI; rule bit_word_eqI)
     apply (auto simp add: bit_simps bit_pad_consts)
  done

lemma pad_word_3: "le_bytes32 (take_bit 24 w XOR push_bit 24 0x80) = [ucast w, ucast (drop_bit 8 w), ucast (drop_bit 16 w), 0x80]"
  unfolding le_bytes32_def
  apply simp
  apply (intro conjI; rule bit_word_eqI)
     apply (auto simp add: bit_simps bit_pad_consts)
  done

lemma pad_word:
  assumes "k < 4"
  shows "le_bytes32 ((w AND NOT (push_bit (8 * k) 0xFFFFFFFF)) XOR push_bit (8 * k) 0x80)
         = take k (le_bytes32 w) @ 0x80 # replicate (3 - k) 0"
proof -
  from assms have "k = 0 \<or> k = 1 \<or> k = 2 \<or> k = 3" by arith
  then show ?thesis
    unfolding mask_form
    using pad_word_0[of w] pad_word_1[of w] pad_word_2[of w] pad_word_3[of w]
    by (elim disjE) (simp_all add: le_bytes32_def numeral_3_eq_3)
qed

lemma le_bytes_append: "le_bytes (xs @ ys) = le_bytes xs @ le_bytes ys"
  by (simp add: le_bytes_def)

lemma le_bytes_take: "le_bytes (take n ws) = take (4 * n) (le_bytes ws)"
proof (induction ws arbitrary: n)
  case Nil
  then show ?case by (simp add: le_bytes_Nil)
next
  case (Cons w ws)
  then show ?case
    by (cases n) (simp_all add: le_bytes_Cons le_bytes_Nil length_le_bytes32)
qed

lemma le_bytes_drop: "le_bytes (drop n ws) = drop (4 * n) (le_bytes ws)"
proof (induction ws arbitrary: n)
  case Nil
  then show ?case by (simp add: le_bytes_Nil)
next
  case (Cons w ws)
  then show ?case
    by (cases n) (simp_all add: le_bytes_Cons le_bytes_Nil length_le_bytes32)
qed

lemma le_bytes32_0: "le_bytes32 0 = [0, 0, 0, 0]"
  by (simp add: le_bytes32_def)

lemma le_bytes_replicate_0: "le_bytes (replicate n 0) = replicate (4 * n) 0"
proof (induction n)
  case 0
  then show ?case by (simp add: le_bytes_Nil)
next
  case (Suc n)
  have "replicate 4 (0::u8) = [0, 0, 0, 0]" by (simp add: eval_nat_numeral)
  then have "replicate (4 + 4 * n) (0::u8) = [0, 0, 0, 0] @ replicate (4 * n) 0"
    by (simp only: replicate_add)
  then show ?case using Suc by (simp add: le_bytes_Cons le_bytes32_0)
qed

lemma le_bytes32_nth: "i < length ws \<Longrightarrow> le_bytes32 (ws ! i) = take 4 (drop (4 * i) (le_bytes ws))"
proof -
  assume "i < length ws"
  then have "ws = take i ws @ ws ! i # drop (Suc i) ws" by (simp add: id_take_nth_drop)
  then have "le_bytes ws = le_bytes (take i ws) @ le_bytes32 (ws ! i) @ le_bytes (drop (Suc i) ws)"
    by (metis le_bytes_append le_bytes_Cons)
  moreover have "length (le_bytes (take i ws)) = 4 * i"
    using \<open>i < length ws\<close> by (simp add: length_le_bytes)
  ultimately show ?thesis by (simp add: length_le_bytes32)
qed

lemma unat_final_index: "unat (drop_bit 2 ((ucast (w :: u64) :: u32) AND 63)) = unat w mod 64 div 4"
proof -
  have "unat (drop_bit 2 ((ucast w :: u32) AND 63)) = drop_bit 2 (unat ((ucast w :: u32) AND 63))"
    by (rule unat_drop_bit_eq)
  also have "\<dots> = unat w mod 64 div 2 ^ 2"
    by (simp only: drop_bit_eq_div unat_index)
  finally show ?thesis by simp
qed

lemma unat_and_3: "unat ((ucast (w :: u64) :: u32) AND 3) = unat w mod 4"
proof -
  have "unat (take_bit 2 (ucast w :: u32)) = take_bit 2 (unat (ucast w :: u32))"
    by (rule unsigned_take_bit_eq)
  also have "unat (ucast w :: u32) = take_bit 32 (unat w)"
    by (simp add: unsigned_ucast_eq)
  also have "take_bit 2 (take_bit 32 (unat w)) = take_bit 2 (unat w)"
    by simp
  also have "\<dots> = unat w mod 4"
    by (simp add: take_bit_eq_mod)
  finally show ?thesis by (simp only: and_3_u32)
qed

lemma unat_final_shift: "unat (((ucast (w :: u64) :: u32) AND 3) * 8) = 8 * (unat w mod 64 mod 4)"
proof -
  have "unat w mod 64 mod 4 = unat w mod 4" by (simp add: mod_mod_cancel)
  moreover have "unat w mod 4 * 8 < 2 ^ 32"
    by (rule less_le_trans[of _ 32]) simp_all
  ultimately show ?thesis
    by (simp add: unat_word_ariths unat_and_3 mult.commute)
qed

lemma padded_prefix_bytes:
  assumes "r < 4 * length m"
  shows "le_bytes (take (r div 4) m @
            [(m ! (r div 4) AND NOT (push_bit (8 * (r mod 4)) 0xFFFFFFFF)) XOR push_bit (8 * (r mod 4)) 0x80])
         = take r (le_bytes m) @ 0x80 # replicate (3 - r mod 4) 0"
proof -
  have i: "r div 4 < length m" using assms by simp
  have "take (r mod 4) (take 4 (drop (4 * (r div 4)) (le_bytes m))) = take (r mod 4) (drop (4 * (r div 4)) (le_bytes m))"
    by (simp add: min_def)
  moreover have "take (4 * (r div 4)) (le_bytes m) @ take (r mod 4) (drop (4 * (r div 4)) (le_bytes m))
        = take (4 * (r div 4) + r mod 4) (le_bytes m)"
    by (rule take_add[symmetric])
  moreover have "4 * (r div 4) + r mod 4 = r" by simp
  ultimately have "take (4 * (r div 4)) (le_bytes m) @ take (r mod 4) (take 4 (drop (4 * (r div 4)) (le_bytes m)))
        = take r (le_bytes m)"
    by (simp only:)
  then show ?thesis
    by (simp add: le_bytes_append le_bytes_take le_bytes_Cons le_bytes_Nil pad_word le_bytes32_nth[OF i]
        del: take_take)
qed

lemma padded_zero_words:
  assumes "r < 4 * length m" "r div 4 + 1 \<le> b"
  shows "take (r div 4) m @ [pad_word32 m r] @ replicate (b - (r div 4 + 1)) 0
         = le_words (take r (le_bytes m) @ 0x80 # replicate (4 * b - r - 1) 0)"
proof -
  let ?ws = "take (r div 4) m @ [pad_word32 m r] @ replicate (b - (r div 4 + 1)) 0"
  have "le_bytes ?ws = le_bytes (take (r div 4) m @ [pad_word32 m r]) @ le_bytes (replicate (b - (r div 4 + 1)) 0)"
    by (simp only: le_bytes_append append_assoc)
  also have "\<dots> = (take r (le_bytes m) @ 0x80 # replicate (3 - r mod 4) 0) @ replicate (4 * (b - (r div 4 + 1))) 0"
    unfolding pad_word32_def by (simp only: padded_prefix_bytes[OF assms(1)] le_bytes_replicate_0)
  also have "\<dots> = take r (le_bytes m) @ 0x80 # replicate ((3 - r mod 4) + 4 * (b - (r div 4 + 1))) 0"
    by (simp only: replicate_add append_assoc append_Cons)
  also have "(3 - r mod 4) + 4 * (b - (r div 4 + 1)) = 4 * b - r - 1"
  proof -
    have "r = 4 * (r div 4) + r mod 4" by simp
    moreover have "r mod 4 < 4" by simp
    ultimately show ?thesis using assms(2) by arith
  qed
  finally have "le_bytes ?ws = take r (le_bytes m) @ 0x80 # replicate (4 * b - r - 1) 0" .
  then show ?thesis using le_words_le_bytes[of ?ws] by (simp only:)
qed

lemma update_14_15: "length xs = 14 \<Longrightarrow> length ys = 2 \<Longrightarrow> (xs @ ys)[14 := a, 15 := b] = xs @ [a, b]"
proof -
  assume x: "length xs = 14" and y: "length ys = 2"
  from y obtain y0 y1 where "ys = [y0, y1]"
    by (auto simp: eval_nat_numeral length_Suc_conv)
  then show ?thesis using x by (simp add: list_update_append)
qed

lemma final_length_block_message:
  assumes "unat idx \<le> 14" "length m = 16"
  shows "message (final_length_block idx (c\<lparr>message := m\<rparr>)) =
           (take (unat idx) m @ replicate (14 - unat idx) 0) @
           [bswap_32 (ucast (drop_bit 29 (length_ctx c))), bswap_32 (ucast (push_bit 3 (length_ctx c)))]"
proof -
  have z: "zero_fill idx 14 m = (14, take (unat idx) m @ replicate (14 - unat idx) 0 @ drop 14 m)"
    using zero_fill_spec[of idx 14 m] assms by simp
  have "length (take (unat idx) m @ replicate (14 - unat idx) 0) = 14" using assms by simp
  moreover have "length (drop 14 m) = 2" using assms by simp
  ultimately have "((take (unat idx) m @ replicate (14 - unat idx) 0) @ drop 14 m)[14 := x, 15 := y]
      = (take (unat idx) m @ replicate (14 - unat idx) 0) @ [x, y]" for x y
    by (rule update_14_15)
  then show ?thesis
    by (simp add: final_length_block_def z Let_def)
qed

lemma final_length_block_eq:
  assumes "unat idx \<le> 14" "length (message c) = 16"
  shows "final_length_block idx c =
           c\<lparr>message := (take (unat idx) (message c) @ replicate (14 - unat idx) 0) @ len_words c\<rparr>"
proof -
  have "final_length_block idx c = c\<lparr>message := message (final_length_block idx (c\<lparr>message := message c\<rparr>))\<rparr>"
    by (simp add: final_length_block_def Let_def split: prod.splits)
  then show ?thesis
    by (simp only: final_length_block_message[OF assms] len_words_def)
qed

lemma final_index_facts:
  fixes c :: sha256_ctx
  defines "r \<equiv> unat (length_ctx c) mod 64"
  defines "iw \<equiv> drop_bit 2 ((ucast (length_ctx c) :: u32) AND 63)"
  shows "unat iw = r div 4" and "unat (iw + 1) = r div 4 + 1" and "14 < iw + 1 \<longleftrightarrow> 56 \<le> r"
    and "unat (((ucast (length_ctx c) :: u32) AND 3) * 8) = 8 * (r mod 4)"
proof -
  show i: "unat iw = r div 4" unfolding iw_def r_def by (rule unat_final_index)
  have "r div 4 < 16" by (simp add: r_def)
  then show i1: "unat (iw + 1) = r div 4 + 1"
    by (simp add: unat_word_ariths i)
  show "14 < iw + 1 \<longleftrightarrow> 56 \<le> r"
    by (simp add: word_less_nat_alt i1) arith
  show "unat (((ucast (length_ctx c) :: u32) AND 3) * 8) = 8 * (r mod 4)"
    by (simp add: r_def unat_final_shift)
qed

lemma padded_message:
  fixes c :: sha256_ctx
  assumes "length (message c) = 16"
  defines "r \<equiv> unat (length_ctx c) mod 64"
  defines "iw \<equiv> drop_bit 2 ((ucast (length_ctx c) :: u32) AND 63)"
  defines "sh \<equiv> ((ucast (length_ctx c) :: u32) AND 3) * 8"
  shows "(message c)[unat iw :=
            (message c)[unat iw := message c ! unat iw AND NOT (push_bit (unat sh) 0xFFFFFFFF)] ! unat iw
              XOR push_bit (unat sh) 0x80]
         = (message c)[r div 4 := pad_word32 (message c) r]"
proof -
  have "r div 4 < 16" by (simp add: r_def)
  then show ?thesis
    using assms(1) unfolding iw_def sh_def r_def pad_word32_def
    by (simp only: final_index_facts(1,4)[of c]) simp
qed

lemma take_Suc_update: "i < length m \<Longrightarrow> take (i + 1) (m[i := x]) = take i m @ [x]"
  by (simp add: take_Suc_conv_app_nth)

lemma padded_filled:
  fixes c :: sha256_ctx
  assumes m16: "length (message c) = 16"
  defines "r \<equiv> unat (length_ctx c) mod 64"
  defines "iw \<equiv> drop_bit 2 ((ucast (length_ctx c) :: u32) AND 63)"
  defines "m2 \<equiv> (message c)[r div 4 := pad_word32 (message c) r]"
  assumes b: "r div 4 + 1 \<le> b" "b \<le> 16"
  shows "take (unat (iw + 1)) m2 @ replicate (b - unat (iw + 1)) 0 = le_words (pad_bytes c (4 * b))"
proof -
  have i: "r div 4 < 16" by (simp add: r_def)
  have r4: "r < 4 * length (message c)" using m16 by (simp add: r_def)
  have u: "unat (iw + 1) = r div 4 + 1"
    unfolding iw_def r_def by (rule final_index_facts(2))
  have "take (r div 4 + 1) m2 = take (r div 4) (message c) @ [pad_word32 (message c) r]"
    unfolding m2_def using i m16 by (intro take_Suc_update) simp
  then have "take (unat (iw + 1)) m2 @ replicate (b - unat (iw + 1)) 0 =
        take (r div 4) (message c) @ [pad_word32 (message c) r] @ replicate (b - (r div 4 + 1)) 0"
    by (simp only: u append_assoc)
  also have "\<dots> = le_words (take r (le_bytes (message c)) @ 0x80 # replicate (4 * b - r - 1) 0)"
    by (rule padded_zero_words[OF r4 b(1)])
  finally show ?thesis by (simp only: pad_bytes_def r_def)
qed

lemma final_pad_small:
  fixes c :: sha256_ctx
  assumes m16: "length (message c) = 16" and small: "unat (length_ctx c) mod 64 < 56"
  shows "final_pad c = (drop_bit 2 ((ucast (length_ctx c) :: u32) AND 63) + 1,
           c\<lparr>message := (message c)[unat (length_ctx c) mod 64 div 4 :=
                  pad_word32 (message c) (unat (length_ctx c) mod 64)]\<rparr>)"
proof -
  have "\<not> 14 < drop_bit 2 ((ucast (length_ctx c) :: u32) AND 63) + 1"
    using small by (simp only: final_index_facts(3))
  then show ?thesis
    unfolding final_pad_def Let_def
    by (simp only: if_False) (simp add: padded_message[OF m16] del: drop_bit_and)
qed

declare drop_bit_and [simp del]

lemma zero_fill_16:
  fixes c :: sha256_ctx
  assumes m16: "length (message c) = 16" and big: "56 \<le> unat (length_ctx c) mod 64"
  shows "zero_fill (drop_bit 2 ((ucast (length_ctx c) :: u32) AND 63) + 1) 16
           ((message c)[unat (length_ctx c) mod 64 div 4 := pad_word32 (message c) (unat (length_ctx c) mod 64)])
         = (16, le_words (pad_bytes c 64))"
proof -
  let ?r = "unat (length_ctx c) mod 64"
  let ?iw1 = "drop_bit 2 ((ucast (length_ctx c) :: u32) AND 63) + 1"
  let ?m2 = "(message c)[?r div 4 := pad_word32 (message c) ?r]"
  have u: "unat ?iw1 = ?r div 4 + 1" by (rule final_index_facts(2))
  have "?r div 4 + 1 \<le> 16" by simp
  then have "zero_fill ?iw1 16 ?m2 = (16, take (unat ?iw1) ?m2 @ replicate (unat (16::u32) - unat ?iw1) 0 @ drop (unat (16::u32)) ?m2)"
    using m16 by (intro zero_fill_spec) (simp_all add: u)
  moreover have "drop (unat (16::u32)) ?m2 = []" using m16 by simp
  moreover have "take (unat ?iw1) ?m2 @ replicate (16 - unat ?iw1) 0 = le_words (pad_bytes c (4 * 16))"
    using m16 by (intro padded_filled) simp_all
  ultimately show ?thesis by simp
qed

lemma final_pad_big:
  fixes c :: sha256_ctx
  assumes m16: "length (message c) = 16" and big: "56 \<le> unat (length_ctx c) mod 64"
  shows "final_pad c = (0, c\<lparr>message := le_words (pad_bytes c 64),
                             hash := sha256_process_block (hash c) (le_words (pad_bytes c 64))\<rparr>)"
proof -
  have "14 < drop_bit 2 ((ucast (length_ctx c) :: u32) AND 63) + 1"
    using big by (simp only: final_index_facts(3))
  then show ?thesis
    unfolding final_pad_def Let_def
    by (simp only: if_True) (simp add: padded_message[OF m16] zero_fill_16[OF m16 big])
qed

lemma length_pad_bytes: "length (message c) = 16 \<Longrightarrow> unat (length_ctx c) mod 64 < n \<Longrightarrow> length (pad_bytes c n) = n"
  by (simp add: pad_bytes_def length_le_bytes)

lemma final_blocks_spec:
  fixes c :: sha256_ctx
  assumes m16: "length (message c) = 16"
  shows "final_blocks c =
    (if unat (length_ctx c) mod 64 < 56
     then [le_words (pad_bytes c 56) @ len_words c]
     else [le_words (pad_bytes c 64), replicate 14 0 @ len_words c])"
proof (cases "unat (length_ctx c) mod 64 < 56")
  case True
  let ?r = "unat (length_ctx c) mod 64"
  let ?iw1 = "drop_bit 2 ((ucast (length_ctx c) :: u32) AND 63) + 1"
  let ?m2 = "(message c)[?r div 4 := pad_word32 (message c) ?r]"
  have u: "unat ?iw1 = ?r div 4 + 1" by (rule final_index_facts(2))
  have n: "\<not> 14 < ?iw1" using True by (simp only: final_index_facts(3))
  have le: "unat ?iw1 \<le> 14" using True by (simp add: u)
  have "final_length_block ?iw1 (c\<lparr>message := ?m2\<rparr>) =
     c\<lparr>message := ?m2\<rparr>\<lparr>message := (take (unat ?iw1) (message (c\<lparr>message := ?m2\<rparr>)) @ replicate (14 - unat ?iw1) 0) @ len_words (c\<lparr>message := ?m2\<rparr>)\<rparr>"
    using m16 by (intro final_length_block_eq[OF le]) simp
  moreover have "take (unat ?iw1) ?m2 @ replicate (14 - unat ?iw1) 0 = le_words (pad_bytes c (4 * 14))"
    using m16 le by (intro padded_filled) (simp_all add: u)
  ultimately have "message (final_length_block ?iw1 (c\<lparr>message := ?m2\<rparr>)) = le_words (pad_bytes c 56) @ len_words c"
    by (simp add: len_words_def)
  then show ?thesis
    using True n unfolding final_blocks_def Let_def
    by (simp only: if_False if_True) (simp add: padded_message[OF m16])
next
  case False
  then have big: "56 \<le> unat (length_ctx c) mod 64" by simp
  let ?iw1 = "drop_bit 2 ((ucast (length_ctx c) :: u32) AND 63) + 1"
  have y: "14 < ?iw1" using big by (simp only: final_index_facts(3))
  let ?b1 = "le_words (pad_bytes c 64)"
  have l: "length ?b1 = 16"
    using length_pad_bytes[OF m16, of 64] by (simp add: length_le_words)
  have "final_length_block 0 (c\<lparr>message := ?b1\<rparr>) =
     c\<lparr>message := ?b1\<rparr>\<lparr>message := (take (unat (0::u32)) (message (c\<lparr>message := ?b1\<rparr>)) @ replicate (14 - unat (0::u32)) 0) @ len_words (c\<lparr>message := ?b1\<rparr>)\<rparr>"
    using l by (intro final_length_block_eq) simp_all
  then have "message (final_length_block 0 (c\<lparr>message := ?b1\<rparr>)) = replicate 14 0 @ len_words c"
    by (simp add: len_words_def)
  then show ?thesis
    using False y unfolding final_blocks_def Let_def
    by (simp only: if_False if_True) (simp add: padded_message[OF m16] zero_fill_16[OF m16 big])
qed

subsection \<open>\<^verbatim>\<open>Hash_Final\<close> in terms of the blocks it compresses\<close>

lemma flb_small:
  fixes c :: sha256_ctx
  assumes m16: "length (message c) = 16" and small: "unat (length_ctx c) mod 64 < 56"
  shows "final_length_block (drop_bit 2 ((ucast (length_ctx c) :: u32) AND 63) + 1)
           (c\<lparr>message := (message c)[unat (length_ctx c) mod 64 div 4 :=
                  pad_word32 (message c) (unat (length_ctx c) mod 64)]\<rparr>)
         = c\<lparr>message := le_words (pad_bytes c 56) @ len_words c\<rparr>"
proof -
  let ?r = "unat (length_ctx c) mod 64"
  let ?iw1 = "drop_bit 2 ((ucast (length_ctx c) :: u32) AND 63) + 1"
  let ?m2 = "(message c)[?r div 4 := pad_word32 (message c) ?r]"
  have u: "unat ?iw1 = ?r div 4 + 1" by (rule final_index_facts(2))
  have le: "unat ?iw1 \<le> 14" using small by (simp add: u)
  have "final_length_block ?iw1 (c\<lparr>message := ?m2\<rparr>) =
     c\<lparr>message := ?m2\<rparr>\<lparr>message := (take (unat ?iw1) (message (c\<lparr>message := ?m2\<rparr>)) @ replicate (14 - unat ?iw1) 0) @ len_words (c\<lparr>message := ?m2\<rparr>)\<rparr>"
    using m16 by (intro final_length_block_eq[OF le]) simp
  moreover have "take (unat ?iw1) ?m2 @ replicate (14 - unat ?iw1) 0 = le_words (pad_bytes c (4 * 14))"
    using m16 le by (intro padded_filled) (simp_all add: u)
  ultimately show ?thesis
    by (simp add: len_words_def)
qed

lemma flb_big:
  fixes c :: sha256_ctx
  assumes m16: "length (message c) = 16" and big: "56 \<le> unat (length_ctx c) mod 64"
  shows "final_length_block 0 (c\<lparr>message := le_words (pad_bytes c 64), hash := hs\<rparr>)
         = c\<lparr>message := replicate 14 0 @ len_words c, hash := hs\<rparr>"
proof -
  let ?b1 = "le_words (pad_bytes c 64)"
  let ?c = "c\<lparr>message := ?b1, hash := hs\<rparr>"
  have l: "length ?b1 = 16"
    using length_pad_bytes[OF m16, of 64] by (simp add: length_le_words)
  have "final_length_block 0 ?c =
     ?c\<lparr>message := (take (unat (0::u32)) (message ?c) @ replicate (14 - unat (0::u32)) 0) @ len_words ?c\<rparr>"
    using l by (intro final_length_block_eq) simp_all
  then show ?thesis
    by (simp add: len_words_def)
qed

lemma Hash_Final_spec:
  fixes c :: sha256_ctx
  assumes m16: "length (message c) = 16"
  shows "Hash_Final c =
     (c\<lparr>message := last (final_blocks c), hash := final_hash c\<rparr>,
      map (\<lambda>i. le_bytes (final_hash c) ! i) [0..<unat (digest_length c)])"
proof (cases "unat (length_ctx c) mod 64 < 56")
  case True
  show ?thesis
    unfolding Hash_Final_def final_hash_def final_pad_small[OF m16 True] final_blocks_spec[OF m16]
    by (simp add: flb_small[OF m16 True] True Let_def)
next
  case False
  then have big: "56 \<le> unat (length_ctx c) mod 64" by simp
  show ?thesis
    unfolding Hash_Final_def final_hash_def final_pad_big[OF m16 big] final_blocks_spec[OF m16]
    by (simp add: flb_big[OF m16 big] False Let_def)
qed

lemma final_blocks_cong:
  fixes c1 c2 :: sha256_ctx
  assumes "length (message c1) = 16" "length (message c2) = 16" "length_ctx c1 = length_ctx c2"
    "take (unat (length_ctx c1) mod 64) (le_bytes (message c1)) = take (unat (length_ctx c1) mod 64) (le_bytes (message c2))"
  shows "final_blocks c1 = final_blocks c2"
  using assms by (simp add: final_blocks_spec pad_bytes_def len_words_def)

lemma Hash_Final_ctx_of:
  assumes "ctx_of M c1" "ctx_of M c2"
  shows "Hash_Final c1 = Hash_Final c2"
proof -
  have m: "length (message c1) = 16" "length (message c2) = 16"
    and l: "length_ctx c1 = length_ctx c2" and h: "hash c1 = hash c2"
    and d: "digest_length c1 = digest_length c2"
    using assms by (simp_all add: ctx_of_def wf_ctx_def)
  have r: "unat (length_ctx c1) mod 64 = length M mod 64"
    using assms(1) by (simp add: ctx_of_def unat_of_nat_mod64)
  have "take (length M mod 64) (le_bytes (message c1)) = take (length M mod 64) (le_bytes (message c2))"
    using assms by (simp add: ctx_of_def)
  then have b: "final_blocks c1 = final_blocks c2"
    using m l r by (intro final_blocks_cong) simp_all
  then have f: "final_hash c1 = final_hash c2" by (simp add: final_hash_def h)
  have "c1\<lparr>message := last (final_blocks c2), hash := final_hash c2\<rparr>
      = c2\<lparr>message := last (final_blocks c2), hash := final_hash c2\<rparr>"
    using l d by (cases c1, cases c2) simp
  then show ?thesis
    by (simp add: Hash_Final_spec m b f d)
qed

lemma unat_of_nat_u32: "n < 2 ^ 32 \<Longrightarrow> unat (of_nat n :: u32) = n"
  by (simp add: unat_of_nat)

lemma feed_ctx_of:
  "ctx_of M c \<Longrightarrow> \<forall>chunk \<in> set chunks. length chunk < 2 ^ 32 \<Longrightarrow> ctx_of (M @ concat chunks) (feed chunks c)"
proof (induction chunks arbitrary: M c)
  case Nil
  then show ?case by (simp add: feed_def)
next
  case (Cons chunk chunks)
  have "unat (of_nat (length chunk) :: u32) = length chunk"
    using Cons.prems(2) by (simp add: unat_of_nat_u32)
  then have "ctx_of (M @ chunk) (Hash_Update (of_nat (length chunk)) chunk c)"
    by (rule Hash_Update_ctx_of[OF Cons.prems(1)])
  then have "ctx_of ((M @ chunk) @ concat chunks) (feed chunks (Hash_Update (of_nat (length chunk)) chunk c))"
    using Cons.prems(2) by (intro Cons.IH) simp_all
  then show ?case by (simp add: feed_def)
qed

lemma bswap_bytes: "le_bytes32 (bswap_32 x) = [ucast (drop_bit 24 x), ucast (drop_bit 16 x), ucast (drop_bit 8 x), ucast x]"
  by (simp only: bswap_32_def le_bytes32_word)

lemma len_words_bytes: "le_bytes (len_words c) = be_bytes64 (length_ctx c * 8)"
proof -
  have m: "length_ctx c * 8 = push_bit 3 (length_ctx c)" by (simp add: push_bit_eq_mult)
  show ?thesis
    unfolding len_words_def le_bytes_Cons le_bytes_Nil bswap_bytes be_bytes64_def m
    apply simp
    apply (intro conjI; rule bit_word_eqI)
           apply (auto simp: bit_simps)
    done
qed

lemma wf_sctx: "wf_ctx sctx"
  by (simp add: wf_ctx_def sctx_def)

section \<open>The claims about the stream\<close>

text \<open>
  Claim C1. Split-invariance: for every message and every way of cutting it into chunks
  (empty chunks too), \<^verbatim>\<open>Hash_Init\<close> with any argument, \<^verbatim>\<open>Hash_Update\<close> on each chunk in
  order and \<^verbatim>\<open>Hash_Final\<close> give the same digest and the same final context (hash state,
  length and buffer) as the one-shot \<^verbatim>\<open>SHA256_Digest\<close> on the whole message, whatever
  the two contexts held before. The message is shorter than \<open>2^32\<close> bytes, as the size
  parameter of the one-shot call requires.
\<close>

theorem split_invariance:
  assumes "wf_ctx c0" and "wf_ctx c1" and "length (concat chunks) < 2 ^ 32"
  shows "Hash_Final (feed chunks (Hash_Init bits c0)) =
         SHA256_Digest (of_nat (length (concat chunks))) (concat chunks) c1"
proof -
  have "\<forall>chunk \<in> set chunks. length chunk < 2 ^ 32"
  proof
    fix chunk assume "chunk \<in> set chunks"
    then have "length chunk \<le> length (concat chunks)"
      by (induction chunks) auto
    then show "length chunk < 2 ^ 32" using assms(3) by simp
  qed
  then have a: "ctx_of ([] @ concat chunks) (feed chunks (Hash_Init bits c0))"
    by (intro feed_ctx_of Hash_Init_ctx_of assms(1))
  have "unat (of_nat (length (concat chunks)) :: u32) = length (concat chunks)"
    using assms(3) by (simp add: unat_of_nat_u32)
  then have b: "ctx_of ([] @ concat chunks)
      (Hash_Update (of_nat (length (concat chunks))) (concat chunks) (Hash_Init 256 c1))"
    by (intro Hash_Update_ctx_of Hash_Init_ctx_of assms(2))
  show ?thesis
    unfolding SHA256_Digest_def by (rule Hash_Final_ctx_of[OF a b])
qed

theorem split_invariance_witness:
  "wf_ctx sctx \<and> length (concat [[0x61], [], [0x62, 0x63 :: u8]]) < 2 ^ 32 \<and>
   Hash_Final (feed [[0x61], [], [0x62, 0x63]] (Hash_Init 224 sctx)) =
     SHA256_Digest (of_nat (length (concat [[0x61], [], [0x62, 0x63 :: u8]]))) (concat [[0x61], [], [0x62, 0x63]]) sctx"
proof -
  have l: "length (concat [[0x61], [], [0x62, 0x63 :: u8]]) < 2 ^ 32" by simp
  from wf_sctx l split_invariance[OF wf_sctx wf_sctx l, of 224] show ?thesis by blast
qed

text \<open>
  Claim C9. No leakage from prior state: from any two contexts, \<^verbatim>\<open>SHA256_Digest\<close> on the
  same message gives the same output and leaves the same context.
\<close>

theorem digest_independent_of_prior_state:
  assumes "wf_ctx c1" and "wf_ctx c2" and "unat sz = length msg"
  shows "SHA256_Digest sz msg c1 = SHA256_Digest sz msg c2"
proof -
  have "ctx_of ([] @ msg) (Hash_Update sz msg (Hash_Init 256 c1))"
    and "ctx_of ([] @ msg) (Hash_Update sz msg (Hash_Init 256 c2))"
    using Hash_Update_ctx_of[OF Hash_Init_ctx_of[OF assms(1), of 256] assms(3)]
      Hash_Update_ctx_of[OF Hash_Init_ctx_of[OF assms(2), of 256] assms(3)] by simp_all
  then show ?thesis
    unfolding SHA256_Digest_def by (rule Hash_Final_ctx_of)
qed


theorem digest_independent_of_prior_state_witness:
  "wf_ctx sctx \<and>
   wf_ctx \<lparr>message = replicate 16 0xFFFFFFFF, length_ctx = 99, hash = replicate 8 7, digest_length = 28\<rparr> \<and>
   unat (3 :: u32) = length [0x61, 0x62, 0x63 :: u8] \<and>
   SHA256_Digest 3 [0x61, 0x62, 0x63] sctx =
   SHA256_Digest 3 [0x61, 0x62, 0x63]
     \<lparr>message = replicate 16 0xFFFFFFFF, length_ctx = 99, hash = replicate 8 7, digest_length = 28\<rparr>"
proof -
  have w: "wf_ctx \<lparr>message = replicate 16 0xFFFFFFFF, length_ctx = 99, hash = replicate 8 7, digest_length = 28\<rparr>"
    by (simp add: wf_ctx_def)
  have l: "unat (3 :: u32) = length [0x61, 0x62, 0x63 :: u8]" by simp
  from wf_sctx w l digest_independent_of_prior_state[OF wf_sctx w l] show ?thesis by blast
qed

text \<open>
  Claim C7. The invariant of the context. \<^verbatim>\<open>Hash_Init\<close> establishes \<open>ctx_of []\<close>; every
  \<^verbatim>\<open>Hash_Update\<close> call on a context with \<open>ctx_of M\<close> gives one with \<open>ctx_of (M @ data)\<close>;
  so it holds after \<^verbatim>\<open>Hash_Init\<close> and every sequence of calls. And \<open>ctx_of M c\<close> says that
  \<open>length mod 64\<close> is the number of valid bytes in the buffer, which are the tail of \<open>M\<close>,
  and that \<open>hash\<close> is the chaining value of exactly the complete 64-byte blocks of \<open>M\<close>.
\<close>

theorem context_invariant:
  "(wf_ctx c0 \<longrightarrow> ctx_of [] (Hash_Init bits c0)) \<and>
   (ctx_of M c \<and> unat sz = length data \<longrightarrow> ctx_of (M @ data) (Hash_Update sz data c)) \<and>
   (wf_ctx c0 \<and> (\<forall>chunk \<in> set chunks. length chunk < 2 ^ 32) \<longrightarrow>
      ctx_of (concat chunks) (feed chunks (Hash_Init bits c0))) \<and>
   (ctx_of M c \<longrightarrow>
      unat (length_ctx c) mod 64 = length M mod 64 \<and>
      take (unat (length_ctx c) mod 64) (le_bytes (message c)) = drop (length M - length M mod 64) M \<and>
      hash c = chain SHA256_H0 M \<and>
      chain SHA256_H0 M = chain SHA256_H0 (take (length M - length M mod 64) M))"
proof (intro conjI impI)
  assume "wf_ctx c0"
  then show "ctx_of [] (Hash_Init bits c0)" by (rule Hash_Init_ctx_of)
next
  assume "ctx_of M c \<and> unat sz = length data"
  then show "ctx_of (M @ data) (Hash_Update sz data c)" by (auto intro: Hash_Update_ctx_of)
next
  assume "wf_ctx c0 \<and> (\<forall>chunk \<in> set chunks. length chunk < 2 ^ 32)"
  then have "ctx_of ([] @ concat chunks) (feed chunks (Hash_Init bits c0))"
    by (intro feed_ctx_of Hash_Init_ctx_of) simp_all
  then show "ctx_of (concat chunks) (feed chunks (Hash_Init bits c0))" by simp
next
  assume a: "ctx_of M c"
  then show r: "unat (length_ctx c) mod 64 = length M mod 64"
    by (simp add: ctx_of_def unat_of_nat_mod64)
  show "take (unat (length_ctx c) mod 64) (le_bytes (message c)) = drop (length M - length M mod 64) M"
    unfolding r using a by (simp add: ctx_of_def)
  show "hash c = chain SHA256_H0 M" using a by (simp add: ctx_of_def)
  show "chain SHA256_H0 M = chain SHA256_H0 (take (length M - length M mod 64) M)"
    by (rule chain_complete_part)
qed

theorem context_invariant_witness:
  "wf_ctx sctx \<and> ctx_of [] (Hash_Init 256 sctx) \<and> unat (2 :: u32) = length [0x61, 0x62 :: u8] \<and>
   ctx_of ([] @ [0x61, 0x62]) (Hash_Update 2 [0x61, 0x62] (Hash_Init 256 sctx)) \<and>
   length [0x61 :: u8] < 2 ^ 32 \<and> length [0x62, 0x63 :: u8] < 2 ^ 32 \<and>
   ctx_of (concat [[0x61], [0x62, 0x63]]) (feed [[0x61], [0x62, 0x63]] (Hash_Init 256 sctx)) \<and>
   hash (Hash_Init 256 sctx) = chain SHA256_H0 []"
proof -
  have i: "ctx_of [] (Hash_Init 256 sctx)"
    using context_invariant[of sctx 256] wf_sctx by blast
  have l: "unat (2 :: u32) = length [0x61, 0x62 :: u8]" by simp
  have u: "ctx_of ([] @ [0x61, 0x62]) (Hash_Update 2 [0x61, 0x62] (Hash_Init 256 sctx))"
    using context_invariant[of _ _ "[]" "Hash_Init 256 sctx" 2 "[0x61, 0x62]"] i l by blast
  have b: "\<forall>chunk \<in> set [[0x61], [0x62, 0x63 :: u8]]. length chunk < 2 ^ 32" by simp
  have f: "ctx_of (concat [[0x61], [0x62, 0x63]]) (feed [[0x61], [0x62, 0x63]] (Hash_Init 256 sctx))"
    using context_invariant[of sctx 256 _ _ _ _ "[[0x61], [0x62, 0x63]]"] wf_sctx b by blast
  have h: "hash (Hash_Init 256 sctx) = chain SHA256_H0 []"
    using context_invariant[of _ _ "[]" "Hash_Init 256 sctx"] i by blast
  from wf_sctx i l u f h show ?thesis by simp
qed

text \<open>
  Claim C8. The partial fill: when \<open>index = length mod 64 > 0\<close> and the data is shorter
  than \<open>64 - index\<close>, \<^verbatim>\<open>Hash_Update\<close> leaves the hash state and the digest length as
  they are, adds the size to \<open>length\<close>, and changes the buffer only in the bytes
  \<open>index .. index + size - 1\<close>, which become the data.
\<close>

theorem partial_fill_frame:
  assumes "length (message c) = 16" and "unat (length_ctx c) mod 64 \<noteq> 0"
    and "unat sz < 64 - unat (length_ctx c) mod 64" and "unat sz \<le> length data"
  shows "hash (Hash_Update sz data c) = hash c \<and>
         length_ctx (Hash_Update sz data c) = length_ctx c + ucast sz \<and>
         digest_length (Hash_Update sz data c) = digest_length c \<and>
         length (message (Hash_Update sz data c)) = 16 \<and>
         le_bytes (message (Hash_Update sz data c)) =
           take (unat (length_ctx c) mod 64) (le_bytes (message c)) @ take (unat sz) data @
           drop (unat (length_ctx c) mod 64 + unat sz) (le_bytes (message c))"
proof -
  let ?r = "unat (length_ctx c) mod 64"
  let ?idx = "(ucast (length_ctx c) :: u32) AND 63"
  have idx: "unat ?idx = ?r" by (rule unat_index)
  then have nz: "?idx \<noteq> 0" using assms(2) by (metis unat_0_iff)
  have lt: "sz < 64 - ?idx"
    using assms(3) by (simp add: word_less_nat_alt unat_left)
  have upd: "Hash_Update sz data c =
     c\<lparr>length_ctx := length_ctx c + ucast sz, message := copy_loop 0 (unat sz) ?r data (message c)\<rparr>"
    using Hash_Update_partial[OF nz lt] by (simp only: idx)
  have "le_bytes (copy_loop 0 (unat sz) ?r data (message c)) =
      take (?r + 0) (le_bytes (message c)) @ take (unat sz - 0) (drop 0 data) @ drop (?r + unat sz) (le_bytes (message c))"
    using assms by (intro le_bytes_copy_loop) simp_all
  then show ?thesis
    using assms(1) by (simp add: upd length_copy_loop)
qed

theorem partial_fill_frame_witness:
  "length (message (sctx\<lparr>length_ctx := 5\<rparr>)) = 16 \<and> unat (length_ctx (sctx\<lparr>length_ctx := 5\<rparr>)) mod 64 \<noteq> 0 \<and>
   unat (2 :: u32) < 64 - unat (length_ctx (sctx\<lparr>length_ctx := 5\<rparr>)) mod 64 \<and>
   unat (2 :: u32) \<le> length [0x61, 0x62 :: u8] \<and>
   hash (Hash_Update 2 [0x61, 0x62] (sctx\<lparr>length_ctx := 5\<rparr>)) = hash (sctx\<lparr>length_ctx := 5\<rparr>) \<and>
   length_ctx (Hash_Update 2 [0x61, 0x62] (sctx\<lparr>length_ctx := 5\<rparr>)) = 7 \<and>
   le_bytes (message (Hash_Update 2 [0x61, 0x62] (sctx\<lparr>length_ctx := 5\<rparr>))) =
     replicate 5 0 @ [0x61, 0x62] @ replicate 57 0"
proof -
  let ?c = "sctx\<lparr>length_ctx := 5\<rparr>"
  have a: "length (message ?c) = 16" "unat (length_ctx ?c) mod 64 \<noteq> 0"
    "unat (2 :: u32) < 64 - unat (length_ctx ?c) mod 64" "unat (2 :: u32) \<le> length [0x61, 0x62 :: u8]"
    by (simp_all add: sctx_def)
  have b: "le_bytes (message sctx) = replicate 64 0"
    using le_bytes_replicate_0[of 16] by (simp add: sctx_def)
  show ?thesis
    using a partial_fill_frame[OF a] by (simp add: b)
qed

text \<open>
  Claim C6. For every context reached by \<^verbatim>\<open>Hash_Init\<close> and \<^verbatim>\<open>Hash_Update\<close> calls,
  \<^verbatim>\<open>Hash_Final\<close> compresses two blocks, the first being the data of the buffer, the byte
  \<open>0x80\<close> and zeros, exactly when the word index after the padding bit exceeds 14, which
  is when \<open>length mod 64\<close> is at least 56, and one block otherwise. In both cases the
  words 14 and 15 of the last block are the big-endian 64-bit encoding of \<open>length * 8\<close>
  (modulo \<open>2^64\<close>).
\<close>

theorem final_padding_structure:
  fixes c0 :: sha256_ctx and chunks :: "u8 list list" and bits :: u32
  assumes "wf_ctx c0" and "\<forall>chunk \<in> set chunks. length chunk < 2 ^ 32"
  defines "c \<equiv> feed chunks (Hash_Init bits c0)"
  shows "final_blocks c =
           (if 14 < drop_bit 2 ((ucast (length_ctx c) :: u32) AND 63) + 1
            then [le_words (pad_bytes c 64), replicate 14 0 @ len_words c]
            else [le_words (pad_bytes c 56) @ len_words c]) \<and>
         (14 < drop_bit 2 ((ucast (length_ctx c) :: u32) AND 63) + 1 \<longleftrightarrow> 56 \<le> unat (length_ctx c) mod 64) \<and>
         drop 14 (last (final_blocks c)) = len_words c \<and>
         drop 56 (le_bytes (last (final_blocks c))) = be_bytes64 (length_ctx c * 8) \<and>
         hash (fst (Hash_Final c)) = final_hash c"
proof -
  have "ctx_of ([] @ concat chunks) c"
    unfolding c_def using assms(1,2) by (intro feed_ctx_of Hash_Init_ctx_of)
  then have m16: "length (message c) = 16" by (simp add: ctx_of_def wf_ctx_def)
  have iff: "14 < drop_bit 2 ((ucast (length_ctx c) :: u32) AND 63) + 1 \<longleftrightarrow> 56 \<le> unat (length_ctx c) mod 64"
    by (rule final_index_facts(3))
  have blocks: "final_blocks c =
           (if 14 < drop_bit 2 ((ucast (length_ctx c) :: u32) AND 63) + 1
            then [le_words (pad_bytes c 64), replicate 14 0 @ len_words c]
            else [le_words (pad_bytes c 56) @ len_words c])"
    unfolding iff final_blocks_spec[OF m16] by auto
  have l14: "length (le_words (pad_bytes c 56)) = 14" if "unat (length_ctx c) mod 64 < 56"
    using length_pad_bytes[OF m16 that] by (simp add: length_le_words)
  have last: "drop 14 (last (final_blocks c)) = len_words c"
    unfolding final_blocks_spec[OF m16] using l14 by simp
  have "le_bytes (drop 14 (last (final_blocks c))) = be_bytes64 (length_ctx c * 8)"
    unfolding last by (rule len_words_bytes)
  then have bytes: "drop 56 (le_bytes (last (final_blocks c))) = be_bytes64 (length_ctx c * 8)"
    by (simp add: le_bytes_drop)
  have "hash (fst (Hash_Final c)) = final_hash c"
    by (simp add: Hash_Final_spec[OF m16])
  with blocks iff last bytes show ?thesis by blast
qed


theorem final_padding_structure_witness:
  "wf_ctx sctx \<and> length (replicate 60 (0 :: u8)) < 2 ^ 32 \<and>
   final_blocks (feed [replicate 60 0] (Hash_Init 256 sctx)) =
     (if 14 < drop_bit 2 ((ucast (length_ctx (feed [replicate 60 0] (Hash_Init 256 sctx))) :: u32) AND 63) + 1
      then [le_words (pad_bytes (feed [replicate 60 0] (Hash_Init 256 sctx)) 64),
            replicate 14 0 @ len_words (feed [replicate 60 0] (Hash_Init 256 sctx))]
      else [le_words (pad_bytes (feed [replicate 60 0] (Hash_Init 256 sctx)) 56) @
            len_words (feed [replicate 60 0] (Hash_Init 256 sctx))]) \<and>
   drop 56 (le_bytes (last (final_blocks (feed [replicate 60 0] (Hash_Init 256 sctx))))) =
     be_bytes64 (length_ctx (feed [replicate 60 0] (Hash_Init 256 sctx)) * 8)"
proof -
  have b: "\<forall>chunk \<in> set [replicate 60 (0 :: u8)]. length chunk < 2 ^ 32" by simp
  have l: "length (replicate 60 (0 :: u8)) < 2 ^ 32" by simp
  from wf_sctx l final_padding_structure[OF wf_sctx b, of 256] show ?thesis by blast
qed

section \<open>Known vectors\<close>

text \<open>The hexadecimal form determines the bytes.\<close>

lemma hex_digit_inj: "i < 16 \<Longrightarrow> j < 16 \<Longrightarrow> hex_digit i = hex_digit j \<Longrightarrow> i = j"
proof -
  have "distinct ''0123456789abcdef''" by simp
  moreover have "length ''0123456789abcdef'' = 16" by simp
  ultimately show "i < 16 \<Longrightarrow> j < 16 \<Longrightarrow> hex_digit i = hex_digit j \<Longrightarrow> i = j"
    unfolding hex_digit_def by (simp only: nth_eq_iff_index_eq)
qed

lemma hex_inj: "hex bs = hex bs' \<Longrightarrow> bs = bs'"
proof (induction bs arbitrary: bs')
  case Nil
  then show ?case by (cases bs') (simp_all add: hex_def)
next
  case (Cons b bs)
  then obtain b' bs'' where bs': "bs' = b' # bs''" by (cases bs') (simp_all add: hex_def)
  have lt: "unat b < 256" "unat b' < 256"
    using unsigned_less[of b, where 'a = nat] unsigned_less[of b', where 'a = nat] by simp_all
  from Cons.prems have d: "hex_digit (unat b div 16) = hex_digit (unat b' div 16)"
    and m: "hex_digit (unat b mod 16) = hex_digit (unat b' mod 16)" and r: "hex bs = hex bs''"
    by (simp_all add: hex_def bs')
  have "unat b div 16 = unat b' div 16" using lt by (intro hex_digit_inj[OF _ _ d]) simp_all
  moreover have "unat b mod 16 = unat b' mod 16" by (intro hex_digit_inj[OF _ _ m]) simp_all
  ultimately have "unat b = unat b'" by (metis div_mult_mod_eq)
  then have "b = b'" by (simp add: word_unat_eq_iff)
  then show ?case using Cons.IH[OF r] by (simp add: bs')
qed

lemma sched_ext_fips:
  "16 \<le> m \<Longrightarrow> sched_ext n (map (fips_W ws) [0..<m]) = map (fips_W ws) [0..<m + n]"
proof (induction n arbitrary: m)
  case 0
  then show ?case by simp
next
  case (Suc n)
  have "fips_W ws m = sigma1 (fips_W ws (m - 2)) + fips_W ws (m - 7) + sigma0 (fips_W ws (m - 15)) + fips_W ws (m - 16)"
    using Suc.prems by (subst fips_W.simps) simp
  then have "map (fips_W ws) [0..<m] @
      [zkwasm_sha256_ssigma1 (map (fips_W ws) [0..<m] ! (length (map (fips_W ws) [0..<m]) - 2)) +
       map (fips_W ws) [0..<m] ! (length (map (fips_W ws) [0..<m]) - 7) +
       zkwasm_sha256_ssigma0 (map (fips_W ws) [0..<m] ! (length (map (fips_W ws) [0..<m]) - 15)) +
       map (fips_W ws) [0..<m] ! (length (map (fips_W ws) [0..<m]) - 16)]
      = map (fips_W ws) [0..<Suc m]"
    using Suc.prems by (simp add: sigma_eqs)
  then show ?case
    using Suc.IH[of "Suc m"] Suc.prems by simp
qed

lemma first16: "length ws = 16 \<Longrightarrow> map (fips_W ws) [0..<16] = ws"
  by (rule nth_equalityI) (simp_all add: fips_W.simps del: upt_Suc)

lemma sched_ext_48: "length ws = 16 \<Longrightarrow> sched_ext 48 ws = map (fips_W ws) [0..<64]"
  using sched_ext_fips[of 16 48 ws] by (simp add: first16)

lemma length_k256: "length rhash_k256 = 64"
  by (simp add: rhash_k256_def)

lemma zip_k256: "zip rhash_k256 (map f [0..<64]) = map (\<lambda>t. (rhash_k256 ! t, f t)) [0..<64]"
  by (rule nth_equalityI) (simp_all add: length_k256 del: upt_Suc)

lemma fips_compress_eval:
  assumes "length ws = 16"
  shows "fips_compress hs ws =
     (case fold (\<lambda>(k, w). code_round k w) (zip rhash_k256 (sched_ext 48 ws))
              (hs ! 0, hs ! 1, hs ! 2, hs ! 3, hs ! 4, hs ! 5, hs ! 6, hs ! 7) of
        (a, b, c, d, e, f, g, h) \<Rightarrow>
          [hs ! 0 + a, hs ! 1 + b, hs ! 2 + c, hs ! 3 + d, hs ! 4 + e, hs ! 5 + f, hs ! 6 + g, hs ! 7 + h])"
proof -
  have "(\<lambda>t. code_round (rhash_k256 ! t) (fips_W ws t)) = (\<lambda>t. fips_round (rhash_k256 ! t) (fips_W ws t))"
    by (intro ext) (rule code_round_fips)
  then show ?thesis
    unfolding fips_compress_def sched_ext_48[OF assms] zip_k256
    by (simp add: fold_map comp_def del: upt_Suc)
qed

lemma bswap_loop: "length hs = 8 \<Longrightarrow> fold (\<lambda>i hs. hs[i := bswap_32 (hs ! i)]) [7, 6, 5, 4, 3, 2, 1, 0] hs = map bswap_32 hs"
proof -
  assume "length hs = 8"
  then obtain h0 h1 h2 h3 h4 h5 h6 h7 where "hs = [h0, h1, h2, h3, h4, h5, h6, h7]"
    using list8 by blast
  then show ?thesis by simp
qed

lemma digest_short:
  assumes "ctx_of M c" "length M < 56"
  shows "snd (Hash_Final c) =
     le_bytes (map bswap_32 (sha256_process_block SHA256_H0
       (le_words (M @ 0x80 # replicate (55 - length M) 0) @
        [bswap_32 (ucast (drop_bit 29 (of_nat (length M) :: u64))),
         bswap_32 (ucast (push_bit 3 (of_nat (length M) :: u64)))])))"
proof -
  have m16: "length (message c) = 16" and dl: "digest_length c = 32"
    and lc: "length_ctx c = of_nat (length M)" and hc: "hash c = chain SHA256_H0 M"
    and tail: "take (length M mod 64) (le_bytes (message c)) = drop (length M - length M mod 64) M"
    using assms(1) by (simp_all add: ctx_of_def wf_ctx_def)
  have r: "unat (length_ctx c) mod 64 = length M"
    using assms(2) by (simp add: lc unat_of_nat_mod64)
  have h0: "hash c = SHA256_H0" using assms(2) by (simp add: hc chain_short)
  have pb: "pad_bytes c 56 = M @ 0x80 # replicate (55 - length M) 0"
    using tail assms(2) by (simp add: pad_bytes_def r)
  have fb: "final_blocks c = [le_words (M @ 0x80 # replicate (55 - length M) 0) @ len_words c]"
    using assms(2) by (simp add: final_blocks_spec[OF m16] r pb)
  let ?h = "sha256_process_block SHA256_H0 (le_words (M @ 0x80 # replicate (55 - length M) 0) @ len_words c)"
  have len: "length ?h = 8" by (simp add: length_process_block length_H0)
  have inner: "fold (\<lambda>blk hs. sha256_process_block hs blk) [x] hs0 = sha256_process_block hs0 x" for x hs0
    by simp
  have fh: "final_hash c = map bswap_32 ?h"
    unfolding final_hash_def fb h0 inner by (rule bswap_loop[OF len])
  have "length (le_bytes (final_hash c)) = 32" by (simp add: fh length_le_bytes length_process_block length_H0)
  then have "map (\<lambda>i. le_bytes (final_hash c) ! i) [0..<32] = le_bytes (final_hash c)"
    by (metis map_nth)
  then show ?thesis
    by (simp add: Hash_Final_spec[OF m16] dl fh len_words_def lc)
qed

lemma block_empty:
  "le_words ([] @ 0x80 # replicate (55 - length ([] :: u8 list)) 0) @
     [bswap_32 (ucast (drop_bit 29 (of_nat (length ([] :: u8 list)) :: u64))),
      bswap_32 (ucast (push_bit 3 (of_nat (length ([] :: u8 list)) :: u64)))] =
    [0x00000080, 0x00000000, 0x00000000, 0x00000000, 0x00000000, 0x00000000,
     0x00000000, 0x00000000, 0x00000000, 0x00000000, 0x00000000, 0x00000000,
     0x00000000, 0x00000000, 0x00000000, 0x00000000]"
  by code_simp

lemma be_empty:
  "map bswap_32
    [0x00000080, 0x00000000, 0x00000000, 0x00000000, 0x00000000, 0x00000000,
     0x00000000, 0x00000000, 0x00000000, 0x00000000, 0x00000000, 0x00000000,
     0x00000000, 0x00000000, 0x00000000, 0x00000000] =
    [0x80000000, 0x00000000, 0x00000000, 0x00000000, 0x00000000, 0x00000000,
     0x00000000, 0x00000000, 0x00000000, 0x00000000, 0x00000000, 0x00000000,
     0x00000000, 0x00000000, 0x00000000, 0x00000000]"
  by code_simp

lemma sched_empty:
  "sched_ext 48
    [0x80000000, 0x00000000, 0x00000000, 0x00000000, 0x00000000, 0x00000000,
     0x00000000, 0x00000000, 0x00000000, 0x00000000, 0x00000000, 0x00000000,
     0x00000000, 0x00000000, 0x00000000, 0x00000000] =
    [0x80000000, 0x00000000, 0x00000000, 0x00000000, 0x00000000, 0x00000000,
     0x00000000, 0x00000000, 0x00000000, 0x00000000, 0x00000000, 0x00000000,
     0x00000000, 0x00000000, 0x00000000, 0x00000000, 0x80000000, 0x00000000,
     0x00205000, 0x00000000, 0x22000800, 0x00000000, 0x05089542, 0x80000000,
     0x58080000, 0x0040a000, 0x00162505, 0x66001800, 0xd6222580, 0x14225508,
     0xd645f95c, 0xc9282000, 0xc3f10094, 0x284ca766, 0x06886dc6, 0xa37bf116,
     0x717cbe96, 0xfec2d74a, 0xa7b67f00, 0x811596a2, 0x98a6e768, 0x03b20c82,
     0x5d1da7c9, 0xb156b935, 0xc3ddca11, 0x249c107f, 0xc48d24ef, 0x5de54c30,
     0xdefece65, 0x2ca1480d, 0x3c15332c, 0x01cec9ad, 0x160cccd0, 0x0bacda98,
     0x361b8fe0, 0xd2320ba6, 0x029b7007, 0x7546587c, 0x07f54f39, 0xf808ddc3,
     0xdcca7608, 0x5e427188, 0x44bcec5d, 0x3b5ec49b]"
  by code_simp

lemma rounds_empty:
  "fold (\<lambda>(k, w). code_round k w)
     (zip rhash_k256
       [0x80000000, 0x00000000, 0x00000000, 0x00000000, 0x00000000, 0x00000000,
        0x00000000, 0x00000000, 0x00000000, 0x00000000, 0x00000000, 0x00000000,
        0x00000000, 0x00000000, 0x00000000, 0x00000000, 0x80000000, 0x00000000,
        0x00205000, 0x00000000, 0x22000800, 0x00000000, 0x05089542, 0x80000000,
        0x58080000, 0x0040a000, 0x00162505, 0x66001800, 0xd6222580, 0x14225508,
        0xd645f95c, 0xc9282000, 0xc3f10094, 0x284ca766, 0x06886dc6, 0xa37bf116,
        0x717cbe96, 0xfec2d74a, 0xa7b67f00, 0x811596a2, 0x98a6e768, 0x03b20c82,
        0x5d1da7c9, 0xb156b935, 0xc3ddca11, 0x249c107f, 0xc48d24ef, 0x5de54c30,
        0xdefece65, 0x2ca1480d, 0x3c15332c, 0x01cec9ad, 0x160cccd0, 0x0bacda98,
        0x361b8fe0, 0xd2320ba6, 0x029b7007, 0x7546587c, 0x07f54f39, 0xf808ddc3,
        0xdcca7608, 0x5e427188, 0x44bcec5d, 0x3b5ec49b])
     (0x6a09e667, 0xbb67ae85, 0x3c6ef372, 0xa54ff53a, 0x510e527f, 0x9b05688c, 0x1f83d9ab, 0x5be0cd19) =
    (0x79a6dddb, 0xdd946d8f, 0x5e8d0156, 0xf41fc3ea, 0xd69fef65, 0xc9962ac0, 0x8511bf70, 0x1c71eb3c)"
  by code_simp

lemma compress_empty:
  "sha256_process_block SHA256_H0
    [0x00000080, 0x00000000, 0x00000000, 0x00000000, 0x00000000, 0x00000000,
     0x00000000, 0x00000000, 0x00000000, 0x00000000, 0x00000000, 0x00000000,
     0x00000000, 0x00000000, 0x00000000, 0x00000000] =
    [0xe3b0c442, 0x98fc1c14, 0x9afbf4c8, 0x996fb924, 0x27ae41e4, 0x649b934c,
     0xa495991b, 0x7852b855]"
proof -
  have "fips_compress SHA256_H0
    [0x80000000, 0x00000000, 0x00000000, 0x00000000, 0x00000000, 0x00000000,
     0x00000000, 0x00000000, 0x00000000, 0x00000000, 0x00000000, 0x00000000,
     0x00000000, 0x00000000, 0x00000000, 0x00000000] =
    [0xe3b0c442, 0x98fc1c14, 0x9afbf4c8, 0x996fb924, 0x27ae41e4, 0x649b934c,
     0xa495991b, 0x7852b855]"
    by (subst fips_compress_eval) (simp_all add: sched_empty SHA256_H0_def rounds_empty)
  then show ?thesis
    by (subst process_block_words) (simp_all only: be_empty length_H0, simp)
qed

lemma digest_empty:
  assumes "ctx_of [] c"
  shows "hex (snd (Hash_Final c)) = ''e3b0c44298fc1c149afbf4c8996fb92427ae41e4649b934ca495991b7852b855''"
    and "length (snd (Hash_Final c)) = 32"
proof -
  have s: "snd (Hash_Final c) = le_bytes (map bswap_32
    [0xe3b0c442, 0x98fc1c14, 0x9afbf4c8, 0x996fb924, 0x27ae41e4, 0x649b934c,
     0xa495991b, 0x7852b855])"
    using digest_short[OF assms] by (simp only: block_empty compress_empty) simp
  show "hex (snd (Hash_Final c)) = ''e3b0c44298fc1c149afbf4c8996fb92427ae41e4649b934ca495991b7852b855''"
    unfolding s by code_simp
  show "length (snd (Hash_Final c)) = 32"
    unfolding s by (simp add: length_le_bytes)
qed

lemma block_abc:
  "le_words ([0x61, 0x62, 0x63] @ 0x80 # replicate (55 - length [0x61, 0x62, 0x63]) 0) @
     [bswap_32 (ucast (drop_bit 29 (of_nat (length [0x61, 0x62, 0x63]) :: u64))),
      bswap_32 (ucast (push_bit 3 (of_nat (length [0x61, 0x62, 0x63]) :: u64)))] =
    [0x80636261, 0x00000000, 0x00000000, 0x00000000, 0x00000000, 0x00000000,
     0x00000000, 0x00000000, 0x00000000, 0x00000000, 0x00000000, 0x00000000,
     0x00000000, 0x00000000, 0x00000000, 0x18000000]"
  by code_simp

lemma be_abc:
  "map bswap_32
    [0x80636261, 0x00000000, 0x00000000, 0x00000000, 0x00000000, 0x00000000,
     0x00000000, 0x00000000, 0x00000000, 0x00000000, 0x00000000, 0x00000000,
     0x00000000, 0x00000000, 0x00000000, 0x18000000] =
    [0x61626380, 0x00000000, 0x00000000, 0x00000000, 0x00000000, 0x00000000,
     0x00000000, 0x00000000, 0x00000000, 0x00000000, 0x00000000, 0x00000000,
     0x00000000, 0x00000000, 0x00000000, 0x00000018]"
  by code_simp

lemma sched_abc:
  "sched_ext 48
    [0x61626380, 0x00000000, 0x00000000, 0x00000000, 0x00000000, 0x00000000,
     0x00000000, 0x00000000, 0x00000000, 0x00000000, 0x00000000, 0x00000000,
     0x00000000, 0x00000000, 0x00000000, 0x00000018] =
    [0x61626380, 0x00000000, 0x00000000, 0x00000000, 0x00000000, 0x00000000,
     0x00000000, 0x00000000, 0x00000000, 0x00000000, 0x00000000, 0x00000000,
     0x00000000, 0x00000000, 0x00000000, 0x00000018, 0x61626380, 0x000f0000,
     0x7da86405, 0x600003c6, 0x3e9d7b78, 0x0183fc00, 0x12dcbfdb, 0xe2e2c38e,
     0xc8215c1a, 0xb73679a2, 0xe5bc3909, 0x32663c5b, 0x9d209d67, 0xec8726cb,
     0x702138a4, 0xd3b7973b, 0x93f5997f, 0x3b68ba73, 0xaff4ffc1, 0xf10a5c62,
     0x0a8b3996, 0x72af830a, 0x9409e33e, 0x24641522, 0x9f47bf94, 0xf0a64f5a,
     0x3e246a79, 0x27333ba3, 0x0c4763f2, 0x840abf27, 0x7a290d5d, 0x065c43da,
     0xfb3e89cb, 0xcc7617db, 0xb9e66c34, 0xa9993667, 0x84badedd, 0xc21462bc,
     0x1487472c, 0xb20f7a99, 0xef57b9cd, 0xebe6b238, 0x9fe3095e, 0x78bc8d4b,
     0xa43fcf15, 0x668b2ff8, 0xeeaba2cc, 0x12b1edeb]"
  by code_simp

lemma rounds_abc:
  "fold (\<lambda>(k, w). code_round k w)
     (zip rhash_k256
       [0x61626380, 0x00000000, 0x00000000, 0x00000000, 0x00000000, 0x00000000,
        0x00000000, 0x00000000, 0x00000000, 0x00000000, 0x00000000, 0x00000000,
        0x00000000, 0x00000000, 0x00000000, 0x00000018, 0x61626380, 0x000f0000,
        0x7da86405, 0x600003c6, 0x3e9d7b78, 0x0183fc00, 0x12dcbfdb, 0xe2e2c38e,
        0xc8215c1a, 0xb73679a2, 0xe5bc3909, 0x32663c5b, 0x9d209d67, 0xec8726cb,
        0x702138a4, 0xd3b7973b, 0x93f5997f, 0x3b68ba73, 0xaff4ffc1, 0xf10a5c62,
        0x0a8b3996, 0x72af830a, 0x9409e33e, 0x24641522, 0x9f47bf94, 0xf0a64f5a,
        0x3e246a79, 0x27333ba3, 0x0c4763f2, 0x840abf27, 0x7a290d5d, 0x065c43da,
        0xfb3e89cb, 0xcc7617db, 0xb9e66c34, 0xa9993667, 0x84badedd, 0xc21462bc,
        0x1487472c, 0xb20f7a99, 0xef57b9cd, 0xebe6b238, 0x9fe3095e, 0x78bc8d4b,
        0xa43fcf15, 0x668b2ff8, 0xeeaba2cc, 0x12b1edeb])
     (0x6a09e667, 0xbb67ae85, 0x3c6ef372, 0xa54ff53a, 0x510e527f, 0x9b05688c, 0x1f83d9ab, 0x5be0cd19) =
    (0x506e3058, 0xd39a2165, 0x04d24d6c, 0xb85e2ce9, 0x5ef50f24, 0xfb121210, 0x948d25b6, 0x961f4894)"
  by code_simp

lemma compress_abc:
  "sha256_process_block SHA256_H0
    [0x80636261, 0x00000000, 0x00000000, 0x00000000, 0x00000000, 0x00000000,
     0x00000000, 0x00000000, 0x00000000, 0x00000000, 0x00000000, 0x00000000,
     0x00000000, 0x00000000, 0x00000000, 0x18000000] =
    [0xba7816bf, 0x8f01cfea, 0x414140de, 0x5dae2223, 0xb00361a3, 0x96177a9c,
     0xb410ff61, 0xf20015ad]"
proof -
  have "fips_compress SHA256_H0
    [0x61626380, 0x00000000, 0x00000000, 0x00000000, 0x00000000, 0x00000000,
     0x00000000, 0x00000000, 0x00000000, 0x00000000, 0x00000000, 0x00000000,
     0x00000000, 0x00000000, 0x00000000, 0x00000018] =
    [0xba7816bf, 0x8f01cfea, 0x414140de, 0x5dae2223, 0xb00361a3, 0x96177a9c,
     0xb410ff61, 0xf20015ad]"
    by (subst fips_compress_eval) (simp_all add: sched_abc SHA256_H0_def rounds_abc)
  then show ?thesis
    by (subst process_block_words) (simp_all only: be_abc length_H0, simp)
qed

lemma digest_abc:
  assumes "ctx_of [0x61, 0x62, 0x63] c"
  shows "hex (snd (Hash_Final c)) = ''ba7816bf8f01cfea414140de5dae2223b00361a396177a9cb410ff61f20015ad''"
    and "length (snd (Hash_Final c)) = 32"
proof -
  have s: "snd (Hash_Final c) = le_bytes (map bswap_32
    [0xba7816bf, 0x8f01cfea, 0x414140de, 0x5dae2223, 0xb00361a3, 0x96177a9c,
     0xb410ff61, 0xf20015ad])"
    using digest_short[OF assms] by (simp only: block_abc compress_abc) simp
  show "hex (snd (Hash_Final c)) = ''ba7816bf8f01cfea414140de5dae2223b00361a396177a9cb410ff61f20015ad''"
    unfolding s by code_simp
  show "length (snd (Hash_Final c)) = 32"
    unfolding s by (simp add: length_le_bytes)
qed

lemma ctx_of_empty_call:
  assumes "wf_ctx c"
  shows "ctx_of [] (Hash_Update 0 [] (Hash_Init bits c))"
  using Hash_Update_ctx_of[OF Hash_Init_ctx_of[OF assms, of bits], of 0 "[]"] by simp

lemma ctx_of_abc_call:
  assumes "wf_ctx c"
  shows "ctx_of [0x61, 0x62, 0x63] (Hash_Update 3 [0x61, 0x62, 0x63] (Hash_Init bits c))"
  using Hash_Update_ctx_of[OF Hash_Init_ctx_of[OF assms, of bits], of 3 "[0x61, 0x62, 0x63]"] by simp

text \<open>
  Claim C2. Known vectors: from any context, \<^verbatim>\<open>SHA256_Digest\<close> on the empty message
  writes the 32 bytes whose hexadecimal form is e3b0c442 98fc1c14 9afbf4c8 996fb924
  27ae41e4 649b934c a495991b 7852b855, and on the three bytes of "abc" the 32 bytes
  ba7816bf 8f01cfea 414140de 5dae2223 b00361a3 96177a9c b410ff61 f20015ad.
\<close>

theorem known_vectors:
  assumes "wf_ctx c"
  shows "length (snd (SHA256_Digest 0 [] c)) = 32 \<and>
   hex (snd (SHA256_Digest 0 [] c)) = ''e3b0c44298fc1c149afbf4c8996fb92427ae41e4649b934ca495991b7852b855'' \<and>
   length (snd (SHA256_Digest 3 [0x61, 0x62, 0x63] c)) = 32 \<and>
   hex (snd (SHA256_Digest 3 [0x61, 0x62, 0x63] c)) = ''ba7816bf8f01cfea414140de5dae2223b00361a396177a9cb410ff61f20015ad''"
  unfolding SHA256_Digest_def
  using digest_empty[OF ctx_of_empty_call[OF assms, of 256]] digest_abc[OF ctx_of_abc_call[OF assms, of 256]]
  by (intro conjI)

theorem known_vectors_witness:
  "wf_ctx sctx \<and>
   hex (snd (SHA256_Digest 0 [] sctx)) = ''e3b0c44298fc1c149afbf4c8996fb92427ae41e4649b934ca495991b7852b855'' \<and>
   hex (snd (SHA256_Digest 3 [0x61, 0x62, 0x63] sctx)) = ''ba7816bf8f01cfea414140de5dae2223b00361a396177a9cb410ff61f20015ad''"
  using wf_sctx known_vectors[OF wf_sctx] by blast

text \<open>
  Claim C3: \<^verbatim>\<open>Hash_Init(224)\<close> loads the SHA-224 initial constants, which are not those of
  SHA-256, and a digest length of 28, so that "abc" hashes to the 28 bytes 23097d22
  3405d822 8642a477 bda255b3 2aadbce4 bda0b3f7 e36c9da7. The header of the source
  announces SHA-256/224, the source defines \<^verbatim>\<open>sha224_hash_size\<close> as 28, \<^verbatim>\<open>Hash_Init\<close> takes
  the variant and \<^verbatim>\<open>Hash_Final\<close> writes \<open>digest_length\<close> bytes; but \<^verbatim>\<open>Hash_Init\<close> never reads
  its argument. What the code does at \<^verbatim>\<open>Hash_Init(224)\<close>, \<^verbatim>\<open>Hash_Update("abc")\<close>,
  \<^verbatim>\<open>Hash_Final\<close> from the initial global context: the state after \<^verbatim>\<open>Hash_Init\<close> is the
  SHA-256 initial value, the digest length is 32 and not 28, and the output is the 32
  bytes of the SHA-256 digest of "abc", not the SHA-224 digest.
\<close>

theorem Hash_Init_224_divergence:
  "hash (Hash_Init 224 sctx) = SHA256_H0 \<and>
   digest_length (Hash_Init 224 sctx) = 32 \<and> digest_length (Hash_Init 224 sctx) \<noteq> 28 \<and>
   length (snd (Hash_Final (Hash_Update 3 [0x61, 0x62, 0x63] (Hash_Init 224 sctx)))) = 32 \<and>
   hex (snd (Hash_Final (Hash_Update 3 [0x61, 0x62, 0x63] (Hash_Init 224 sctx)))) =
     ''ba7816bf8f01cfea414140de5dae2223b00361a396177a9cb410ff61f20015ad'' \<and>
   hex (snd (Hash_Final (Hash_Update 3 [0x61, 0x62, 0x63] (Hash_Init 224 sctx)))) \<noteq>
     ''23097d223405d8228642a477bda255b32aadbce4bda0b3f7e36c9da7''"
proof -
  have i: "hash (Hash_Init 224 sctx) = SHA256_H0" "digest_length (Hash_Init 224 sctx) = 32"
    using Hash_Init_ctx_of[OF wf_sctx, of 224] by (simp_all add: ctx_of_def chain_short)
  then have n: "digest_length (Hash_Init 224 sctx) \<noteq> 28" by simp
  note d = digest_abc[OF ctx_of_abc_call[OF wf_sctx, of 224]]
  have "hex (snd (Hash_Final (Hash_Update 3 [0x61, 0x62, 0x63] (Hash_Init 224 sctx)))) \<noteq>
     ''23097d223405d8228642a477bda255b32aadbce4bda0b3f7e36c9da7''"
    by (simp add: d(1))
  with i n d show ?thesis by (intro conjI)
qed

end
